theory Spec2Isabelle
  imports Main
begin

section \<open>JavaScript strings and the string primitives the parser uses\<close>

text \<open>
  A JavaScript string is a sequence of UTF-16 code units. The parser tests for code
  units beyond Latin-1 (U+202F, U+200E, ...), so a code unit is a natural number here
  and not a \<^typ>\<open>char\<close>. \<open>js\<close> embeds an ASCII literal.
\<close>

type_synonym jsstring = "nat list"

definition js :: "string \<Rightarrow> jsstring" where
  "js s = map of_char s"

text \<open>
  The code units that \<^verbatim>\<open>\s\<close>, \<^verbatim>\<open>trim()\<close> and the leading-blank skip of
  \<^verbatim>\<open>parseInt\<close> treat as white space (WhiteSpace and LineTerminator of ECMAScript):
  TAB, LF, VT, FF, CR, SP, NBSP, U+1680, U+2000..U+200A, U+2028, U+2029, U+202F,
  U+205F, U+3000, U+FEFF.
\<close>

definition isWs :: "nat \<Rightarrow> bool" where
  "isWs c \<longleftrightarrow> (9 \<le> c \<and> c \<le> 13) \<or> c = 32 \<or> c = 160 \<or> c = 5760 \<or> (8192 \<le> c \<and> c \<le> 8202)
     \<or> c = 8232 \<or> c = 8233 \<or> c = 8239 \<or> c = 8287 \<or> c = 12288 \<or> c = 65279"

text \<open>Line terminators (LF, CR, U+2028, U+2029): what \<^verbatim>\<open>.\<close> does not match.\<close>

definition isLineTerminator :: "nat \<Rightarrow> bool" where
  "isLineTerminator c \<longleftrightarrow> c = 10 \<or> c = 13 \<or> c = 8232 \<or> c = 8233"

definition isDigit :: "nat \<Rightarrow> bool" where
  "isDigit c \<longleftrightarrow> 48 \<le> c \<and> c \<le> 57"

text \<open>The class of U+200E, U+200F and U+202A..U+202E: the marks that every line is stripped of.\<close>

definition isInvisible :: "nat \<Rightarrow> bool" where
  "isInvisible c \<longleftrightarrow> c = 8206 \<or> c = 8207 \<or> (8234 \<le> c \<and> c \<le> 8238)"

text \<open>\<^verbatim>\<open>s.trim()\<close>\<close>

definition trim :: "jsstring \<Rightarrow> jsstring" where
  "trim s = rev (dropWhile isWs (rev (dropWhile isWs s)))"

text \<open>
  \<^verbatim>\<open>s.split(sep)\<close> for a separator that is one code unit, or a regular expression
  matching exactly one code unit of a class: the result always has at least one piece.
\<close>

fun splitWhere :: "(nat \<Rightarrow> bool) \<Rightarrow> jsstring \<Rightarrow> jsstring list" where
  "splitWhere p [] = [] # []"
| "splitWhere p (x # xs) =
     (if p x then [] # splitWhere p xs
      else (case splitWhere p xs of
              [] \<Rightarrow> [x] # []
            | piece # pieces \<Rightarrow> (x # piece) # pieces))"

definition split :: "nat \<Rightarrow> jsstring \<Rightarrow> jsstring list" where
  "split sep s = splitWhere (\<lambda>c. c = sep) s"

text \<open>\<^verbatim>\<open>a[i]\<close>: \<open>None\<close> is \<^verbatim>\<open>undefined\<close>.\<close>

definition nth_opt :: "'a list \<Rightarrow> nat \<Rightarrow> 'a option" where
  "nth_opt xs i = (if i < length xs then Some (xs ! i) else None)"

text \<open>ToString of a value that is a string or \<^verbatim>\<open>undefined\<close> (template literals, \<^verbatim>\<open>parseInt\<close>).\<close>

definition toStr :: "jsstring option \<Rightarrow> jsstring" where
  "toStr v = (case v of None \<Rightarrow> js ''undefined'' | Some s \<Rightarrow> s)"

text \<open>\<^verbatim>\<open>s.padStart(2, '0')\<close>\<close>

definition padStart2 :: "jsstring \<Rightarrow> jsstring" where
  "padStart2 s = replicate (2 - length s) 48 @ s"

text \<open>\<^verbatim>\<open>s.includes(t)\<close>\<close>

fun isPrefixOf :: "jsstring \<Rightarrow> jsstring \<Rightarrow> bool" where
  "isPrefixOf [] s = True"
| "isPrefixOf (p # ps) [] = False"
| "isPrefixOf (p # ps) (x # xs) = (p = x \<and> isPrefixOf ps xs)"

fun includesJs :: "jsstring \<Rightarrow> jsstring \<Rightarrow> bool" where
  "includesJs [] t = isPrefixOf t []"
| "includesJs (x # xs) t = (isPrefixOf t (x # xs) \<or> includesJs xs t)"

text \<open>
  \<^verbatim>\<open>s.toLowerCase()\<close>. The parser only compares the result with ASCII words. The
  code units whose lower case contains an ASCII letter are A..Z, U+212A (Kelvin sign,
  to k) and U+0130 (to i followed by U+0307); every other code unit has a lower case
  outside ASCII and is left as it is.
\<close>

definition lowerUnit :: "nat \<Rightarrow> jsstring" where
  "lowerUnit c = (if 65 \<le> c \<and> c \<le> 90 then [c + 32]
                  else if c = 8490 then [107]
                  else if c = 304 then [105, 775]
                  else [c])"

definition toLowerCase :: "jsstring \<Rightarrow> jsstring" where
  "toLowerCase s = concat (map lowerUnit s)"

subsection \<open>Numbers\<close>

text \<open>The decimal value of a run of digits, and \<^verbatim>\<open>String(n)\<close> of a natural number.\<close>

definition decimalValue :: "jsstring \<Rightarrow> nat" where
  "decimalValue ds = foldl (\<lambda>acc d. 10 * acc + (d - 48)) 0 ds"

function showNat :: "nat \<Rightarrow> jsstring" where
  "showNat n = (if n < 10 then [48 + n] else showNat (n div 10) @ [48 + n mod 10])"
  by pat_completeness auto
termination
  by (relation "measure id") auto

declare showNat.simps [simp del]

text \<open>
  \<^verbatim>\<open>parseInt(s)\<close> with no radix: leading white space is skipped, then a sign, then
  \<^verbatim>\<open>0x\<close> selects radix 16, then the longest run of digits is read; an empty run is
  NaN (\<open>None\<close>). The source only compares the result with 12, which rounding to a
  double does not change, so the exact integer stands for the double.
\<close>

definition isHexDigit :: "nat \<Rightarrow> bool" where
  "isHexDigit c \<longleftrightarrow> isDigit c \<or> (65 \<le> c \<and> c \<le> 70) \<or> (97 \<le> c \<and> c \<le> 102)"

definition hexDigitValue :: "nat \<Rightarrow> nat" where
  "hexDigitValue c = (if isDigit c then c - 48 else if c \<le> 70 then c - 55 else c - 87)"

definition parseInt :: "jsstring \<Rightarrow> int option" where
  "parseInt s =
     (let t = dropWhile isWs s;
          negative = (case t of [] \<Rightarrow> False | x # _ \<Rightarrow> x = 45);
          u = (case t of [] \<Rightarrow> [] | x # r \<Rightarrow> if x = 43 \<or> x = 45 then r else t);
          hex = (case u of a # b # _ \<Rightarrow> a = 48 \<and> (b = 120 \<or> b = 88) | _ \<Rightarrow> False);
          z = (if hex then takeWhile isHexDigit (drop 2 u) else takeWhile isDigit u);
          v = (if hex then foldl (\<lambda>acc d. 16 * acc + hexDigitValue d) 0 z else decimalValue z)
      in if z = [] then None else Some (if negative then - int v else int v))"

text \<open>\<^verbatim>\<open>x > 12\<close> for the result of \<^verbatim>\<open>parseInt\<close>: false for NaN.\<close>

definition gt12 :: "int option \<Rightarrow> bool" where
  "gt12 v = (case v of None \<Rightarrow> False | Some n \<Rightarrow> n > 12)"

text \<open>
  \<^verbatim>\<open>Number(s)\<close> on a piece of the time token. The model tracks the values the
  parser can print back exactly: the empty string is 0 and a run of at most 15 decimal
  digits is its value (below \<open>2^53\<close>, printed by \<^verbatim>\<open>String\<close> in plain decimal). \<open>None\<close>
  stands for every other string (NaN, signs, fractions, exponents, hexadecimal, longer
  runs), whose value the model does not follow.
\<close>

definition Number :: "jsstring \<Rightarrow> nat option" where
  "Number s = (if list_all isDigit s \<and> length s \<le> 15 then Some (decimalValue s) else None)"

section \<open>Regular expressions\<close>

text \<open>
  The abstract syntax of the regular expressions of the parser. Every quantifier of the
  source stands on a single character class, so \<open>Rep c lo hi greedy\<close> repeats a class
  between \<open>lo\<close> and \<open>hi\<close> times (\<open>None\<close>: unbounded), greedily or lazily. \<open>Grp i r\<close>
  is the \<open>i\<close>-th capturing group, \<open>Eol\<close> is \<^verbatim>\<open>$\<close> (no multiline flag: the end of
  the input).
\<close>

datatype cclass = Digit | Space | Dot | OneOf "nat list" | NoneOf "nat list" | Union cclass cclass

datatype regex =
    Lit jsstring
  | Cls cclass
  | Rep cclass nat "nat option" bool
  | Cat regex regex
  | Alt regex regex
  | Grp nat regex
  | Eol

text \<open>
  Canonicalize of ECMAScript without the unicode flag, used when the \<^verbatim>\<open>i\<close> flag is
  set: a code unit is compared by its upper case, and a code unit outside ASCII is never
  mapped into ASCII. The patterns with the \<^verbatim>\<open>i\<close> flag hold ASCII characters only, so
  only the ASCII letters need their upper case here.
\<close>

definition canon :: "bool \<Rightarrow> nat \<Rightarrow> nat" where
  "canon ci c = (if ci \<and> 97 \<le> c \<and> c \<le> 122 then c - 32 else c)"

fun inClass :: "bool \<Rightarrow> cclass \<Rightarrow> nat \<Rightarrow> bool" where
  "inClass ci Digit c = isDigit c"
| "inClass ci Space c = isWs c"
| "inClass ci Dot c = (\<not> isLineTerminator c)"
| "inClass ci (OneOf cs) c = (canon ci c \<in> set (map (canon ci) cs))"
| "inClass ci (NoneOf cs) c = (canon ci c \<notin> set (map (canon ci) cs))"
| "inClass ci (Union a b) c = (inClass ci a c \<or> inClass ci b c)"

type_synonym captures = "nat \<Rightarrow> jsstring option"

text \<open>
  The backtracking matcher as a list of successes: \<open>rx ci r caps s\<close> lists, in the
  order in which the backtracking of ECMAScript tries them, the ways in which \<open>r\<close>
  matches a prefix of \<open>s\<close>, each with the captures so far and the rest of the input.
\<close>

fun rx :: "bool \<Rightarrow> regex \<Rightarrow> captures \<Rightarrow> jsstring \<Rightarrow> (captures \<times> jsstring) list" where
  "rx ci (Lit l) caps s =
     (if length l \<le> length s \<and> map (canon ci) (take (length l) s) = map (canon ci) l
      then [(caps, drop (length l) s)] else [])"
| "rx ci (Cls c) caps s =
     (case s of [] \<Rightarrow> [] | x # xs \<Rightarrow> if inClass ci c x then [(caps, xs)] else [])"
| "rx ci (Rep c lo hi greedy) caps s =
     (let run = length (takeWhile (inClass ci c) s);
          top = (case hi of None \<Rightarrow> run | Some h \<Rightarrow> min h run);
          counts = [lo ..< Suc top]
      in map (\<lambda>k. (caps, drop k s)) (if greedy then rev counts else counts))"
| "rx ci (Cat a b) caps s =
     concat (map (\<lambda>(caps', rest). rx ci b caps' rest) (rx ci a caps s))"
| "rx ci (Alt a b) caps s = rx ci a caps s @ rx ci b caps s"
| "rx ci (Grp i a) caps s =
     map (\<lambda>(caps', rest). (caps'(i \<mapsto> take (length s - length rest) s), rest)) (rx ci a caps s)"
| "rx ci Eol caps s = (if s = [] then [(caps, [])] else [])"

fun seq :: "regex list \<Rightarrow> regex" where
  "seq [] = Lit []"
| "seq [r] = r"
| "seq (r # rs) = Cat r (seq rs)"

fun alts :: "regex list \<Rightarrow> regex" where
  "alts [] = Lit []"
| "alts [r] = r"
| "alts (r # rs) = Alt r (alts rs)"

text \<open>
  A pattern is an expression with its flags. \<open>anchored\<close> says that the expression
  starts with \<^verbatim>\<open>^\<close>: it can match at index 0 only. \<open>exec\<close> is \<^verbatim>\<open>re.exec(s)\<close>,
  which \<^verbatim>\<open>s.match(re)\<close> and \<^verbatim>\<open>re.test(s)\<close> call for an expression without the
  \<^verbatim>\<open>g\<close> flag: the first success at the leftmost index that has one.
\<close>

record pattern =
  anchored :: bool
  ignoreCase :: bool
  body :: regex

definition matchAt :: "pattern \<Rightarrow> jsstring \<Rightarrow> captures option" where
  "matchAt p s = (case rx (ignoreCase p) (body p) Map.empty s of
                    [] \<Rightarrow> None
                  | (caps, _) # _ \<Rightarrow> Some caps)"

fun search :: "pattern \<Rightarrow> jsstring \<Rightarrow> captures option" where
  "search p [] = matchAt p []"
| "search p (x # xs) = (case matchAt p (x # xs) of Some caps \<Rightarrow> Some caps | None \<Rightarrow> search p xs)"

definition exec :: "pattern \<Rightarrow> jsstring \<Rightarrow> captures option" where
  "exec p s = (if anchored p then matchAt p s else search p s)"

subsection \<open>The patterns of the parser\<close>

text \<open>\<^verbatim>\<open>\d{1,2}\/\d{1,2}\/\d{2}\<close>\<close>

definition dateRx :: regex where
  "dateRx = seq [Rep Digit 1 (Some 2) True, Lit (js ''/''), Rep Digit 1 (Some 2) True, Lit (js ''/''),
                 Rep Digit 2 (Some 2) True]"

text \<open>\<^verbatim>\<open>\d{1,2}:\d{2}:\d{2} [AP]M\<close>\<close>

definition timeRx1 :: regex where
  "timeRx1 = seq [Rep Digit 1 (Some 2) True, Lit (js '':''), Rep Digit 2 (Some 2) True, Lit (js '':''),
                  Rep Digit 2 (Some 2) True, Lit (js '' ''), Cls (OneOf (js ''AP'')), Lit (js ''M'')]"

text \<open>\<^verbatim>\<open>\d{1,2}:\d{2}[\s\u202F][AP]M\<close>\<close>

definition timeRx2 :: regex where
  "timeRx2 = seq [Rep Digit 1 (Some 2) True, Lit (js '':''), Rep Digit 2 (Some 2) True,
                  Cls (Union Space (OneOf [8239])), Cls (OneOf (js ''AP'')), Lit (js ''M'')]"

text \<open>\<^verbatim>\<open>/^\[(\d{1,2}\/\d{1,2}\/\d{2}), (\d{1,2}:\d{2}:\d{2} [AP]M)\] ([^:]+): (.*)$/\<close>\<close>

definition MESSAGE_START_PATTERN_1 :: pattern where
  "MESSAGE_START_PATTERN_1 = \<lparr>anchored = True, ignoreCase = False,
     body = seq [Lit (js ''[''), Grp 1 dateRx, Lit (js '', ''), Grp 2 timeRx1, Lit (js ''] ''),
                 Grp 3 (Rep (NoneOf (js '':'')) 1 None True), Lit (js '': ''),
                 Grp 4 (Rep Dot 0 None True), Eol]\<rparr>"

text \<open>\<^verbatim>\<open>/^(\d{1,2}\/\d{1,2}\/\d{2}), (\d{1,2}:\d{2}[\s\u202F][AP]M) - ([^:]+): (.*)$/\<close>\<close>

definition MESSAGE_START_PATTERN_2 :: pattern where
  "MESSAGE_START_PATTERN_2 = \<lparr>anchored = True, ignoreCase = False,
     body = seq [Grp 1 dateRx, Lit (js '', ''), Grp 2 timeRx2, Lit (js '' - ''),
                 Grp 3 (Rep (NoneOf (js '':'')) 1 None True), Lit (js '': ''),
                 Grp 4 (Rep Dot 0 None True), Eol]\<rparr>"

text \<open>\<^verbatim>\<open>/^(\d{1,2}\/\d{1,2}\/\d{2}), (\d{1,2}:\d{2}[\s\u202F][AP]M) - (.+)$/\<close>\<close>

definition MESSAGE_START_PATTERN_2_SYSTEM :: pattern where
  "MESSAGE_START_PATTERN_2_SYSTEM = \<lparr>anchored = True, ignoreCase = False,
     body = seq [Grp 1 dateRx, Lit (js '', ''), Grp 2 timeRx2, Lit (js '' - ''),
                 Grp 3 (Rep Dot 1 None True), Eol]\<rparr>"

text \<open>\<^verbatim>\<open>/<attached: (.+?)>/\<close>\<close>

definition MEDIA_ATTACHED_PATTERN :: pattern where
  "MEDIA_ATTACHED_PATTERN = \<lparr>anchored = False, ignoreCase = False,
     body = seq [Lit (js ''<attached: ''), Grp 1 (Rep Dot 1 None False), Lit (js ''>'')]\<rparr>"

text \<open>\<^verbatim>\<open>/^(.+?\.(jpg|jpeg|png|gif|webp|mp4|avi|mov|mkv|opus|mp3|ogg|aac|m4a|pdf|doc|docx|xls|xlsx)) \(file attached\)/i\<close>\<close>

definition MEDIA_ATTACHED_PATTERN_2 :: pattern where
  "MEDIA_ATTACHED_PATTERN_2 = \<lparr>anchored = True, ignoreCase = True,
     body = seq [Grp 1 (seq [Rep Dot 1 None False, Lit (js ''.''),
                   Grp 2 (alts (map (\<lambda>w. Lit (js w))
                     [''jpg'', ''jpeg'', ''png'', ''gif'', ''webp'', ''mp4'', ''avi'', ''mov'', ''mkv'',
                      ''opus'', ''mp3'', ''ogg'', ''aac'', ''m4a'', ''pdf'', ''doc'', ''docx'', ''xls'',
                      ''xlsx'']))]),
                 Lit (js '' (file attached)'')]\<rparr>"

text \<open>\<^verbatim>\<open>/image omitted|video omitted|audio omitted|sticker omitted|document omitted/i\<close>\<close>

definition MEDIA_OMITTED_PATTERN :: pattern where
  "MEDIA_OMITTED_PATTERN = \<lparr>anchored = False, ignoreCase = True,
     body = alts (map (\<lambda>w. Lit (js w))
       [''image omitted'', ''video omitted'', ''audio omitted'', ''sticker omitted'',
        ''document omitted''])\<rparr>"

definition SYSTEM_MESSAGE_INDICATORS :: "jsstring list" where
  "SYSTEM_MESSAGE_INDICATORS = map js
     [''created this group'', ''added you'', ''left'', ''removed'', ''changed the subject'',
      ''changed this group'' @ [CHR 0x27] @ ''s icon'', ''Messages and calls are end-to-end encrypted'']"

section \<open>The timestamp normalizer\<close>

text \<open>
  What a call can end with besides a value: the \<^verbatim>\<open>TypeError\<close> that JavaScript throws
  when a method is called on \<^verbatim>\<open>undefined\<close>, and \<open>NotModelled\<close> where the result
  depends on a number or a date that the model does not follow.
\<close>

datatype jserror = TypeError | NotModelled

text \<open>
  \<^verbatim>\<open>parseDateTime(dateStr, timeStr, formatType)\<close>. The three branches that choose
  day and month are the source's. \<^verbatim>\<open>month.padStart\<close>, \<^verbatim>\<open>day.padStart\<close> and
  \<^verbatim>\<open>minutes.toString\<close> throw on a missing piece; a missing year prints as
  \<^verbatim>\<open>undefined\<close>; \<^verbatim>\<open>timeParts[2] || 0\<close> is 0 for a missing or zero seconds field.
\<close>

definition parseDateTime :: "jsstring \<Rightarrow> jsstring \<Rightarrow> nat \<Rightarrow> jserror + jsstring" where
  "parseDateTime dateStr timeStr formatType =
     (let parts = split 47 dateStr;
          year = nth_opt parts 2;
          fullYear = js ''20'' @ toStr year;
          first = parseInt (toStr (nth_opt parts 0));
          second = parseInt (toStr (nth_opt parts 1));
          (day, month) =
            (if gt12 first then (nth_opt parts 0, nth_opt parts 1)
             else if gt12 second then (nth_opt parts 1, nth_opt parts 0)
             else if formatType = 2 then (nth_opt parts 1, nth_opt parts 0)
             else (nth_opt parts 0, nth_opt parts 1));
          pieces = splitWhere (\<lambda>c. isWs c \<or> c = 8239) timeStr;
          period = nth_opt pieces 1
      in case nth_opt pieces 0 of
           None \<Rightarrow> Inl TypeError
         | Some time \<Rightarrow>
            (let timeParts = map Number (split 58 time);
                 minutes = nth_opt timeParts 1;
                 seconds = (case nth_opt timeParts 2 of None \<Rightarrow> Some 0 | Some v \<Rightarrow> v)
             in case (month, day, minutes) of
                  (Some mo, Some da, Some mi) \<Rightarrow>
                    (case (nth_opt timeParts 0, mi, seconds) of
                       (Some (Some h), Some m, Some s) \<Rightarrow>
                         (let hours = (if period = Some (js ''PM'') \<and> h \<noteq> 12 then h + 12
                                       else if period = Some (js ''AM'') \<and> h = 12 then 0
                                       else h)
                          in Inr (fullYear @ js ''-'' @ padStart2 mo @ js ''-'' @ padStart2 da @ js ''T''
                                  @ padStart2 (showNat hours) @ js '':'' @ padStart2 (showNat m)
                                  @ js '':'' @ padStart2 (showNat s)))
                     | _ \<Rightarrow> Inl NotModelled)
                | _ \<Rightarrow> Inl TypeError))"

text \<open>
  \<^verbatim>\<open>parseDateTime(dateStr, timeStr)\<close> of the older parser kept in
  \<^verbatim>\<open>parser/src/parser.js\<close>, which knows the bracket pattern only: the first field
  is always the day, the time token is split at the plain space, and a missing seconds
  field throws.
\<close>

definition parseDateTime_legacy :: "jsstring \<Rightarrow> jsstring \<Rightarrow> jserror + jsstring" where
  "parseDateTime_legacy dateStr timeStr =
     (let parts = split 47 dateStr;
          day = nth_opt parts 0;
          month = nth_opt parts 1;
          year = nth_opt parts 2;
          fullYear = js ''20'' @ toStr year;
          pieces = split 32 timeStr;
          period = nth_opt pieces 1
      in case nth_opt pieces 0 of
           None \<Rightarrow> Inl TypeError
         | Some time \<Rightarrow>
            (let timeParts = map Number (split 58 time)
             in case (month, day, nth_opt timeParts 1, nth_opt timeParts 2) of
                  (Some mo, Some da, Some mi, Some se) \<Rightarrow>
                    (case (nth_opt timeParts 0, mi, se) of
                       (Some (Some h), Some m, Some s) \<Rightarrow>
                         (let hours = (if period = Some (js ''PM'') \<and> h \<noteq> 12 then h + 12
                                       else if period = Some (js ''AM'') \<and> h = 12 then 0
                                       else h)
                          in Inr (fullYear @ js ''-'' @ padStart2 mo @ js ''-'' @ padStart2 da @ js ''T''
                                  @ padStart2 (showNat hours) @ js '':'' @ padStart2 (showNat m)
                                  @ js '':'' @ padStart2 (showNat s)))
                     | _ \<Rightarrow> Inl NotModelled)
                | _ \<Rightarrow> Inl TypeError))"

section \<open>The message content analyzer\<close>

datatype msgType = Text | Media | MediaOmitted | System

datatype mediaKind = Image | Video | Audio | Document

record mediaInfo =
  filename :: jsstring
  mediaType :: mediaKind

record analysis =
  type :: msgType
  media :: "mediaInfo option"

definition isSystemMessage :: "jsstring \<Rightarrow> bool" where
  "isSystemMessage content = list_ex (\<lambda>indicator. includesJs content indicator) SYSTEM_MESSAGE_INDICATORS"

text \<open>The chain of \<^verbatim>\<open>includes(ext)\<close> tests that both attachment branches share.\<close>

definition mediaTypeOf :: "jsstring \<Rightarrow> mediaKind" where
  "mediaTypeOf ext =
     (if ext \<in> set (map js [''jpg'', ''jpeg'', ''png'', ''gif'', ''webp'']) then Image
      else if ext \<in> set (map js [''mp4'', ''avi'', ''mov'', ''mkv'']) then Video
      else if ext \<in> set (map js [''opus'', ''mp3'', ''ogg'', ''aac'', ''m4a'']) then Audio
      else if ext \<in> set (map js [''pdf'', ''doc'', ''docx'', ''xls'', ''xlsx'']) then Document
      else Document)"

text \<open>
  \<^verbatim>\<open>analyzeMessage(content)\<close>. A group that took no part in a match is
  \<^verbatim>\<open>undefined\<close>, and the method called on it throws.
\<close>

definition analyzeMessage :: "jsstring \<Rightarrow> jserror + analysis" where
  "analyzeMessage content =
     (case exec MEDIA_ATTACHED_PATTERN content of
        Some attachedMatch \<Rightarrow>
          (case attachedMatch 1 of
             None \<Rightarrow> Inl TypeError
           | Some fname \<Rightarrow>
               (let ext = toLowerCase (last (split 46 fname))
                in Inr \<lparr>type = Media, media = Some \<lparr>filename = fname, mediaType = mediaTypeOf ext\<rparr>\<rparr>))
      | None \<Rightarrow>
          (case exec MEDIA_ATTACHED_PATTERN_2 content of
             Some attachedMatch2 \<Rightarrow>
               (case (attachedMatch2 1, attachedMatch2 2) of
                  (Some fname, Some e) \<Rightarrow>
                    Inr \<lparr>type = Media,
                         media = Some \<lparr>filename = fname, mediaType = mediaTypeOf (toLowerCase e)\<rparr>\<rparr>
                | _ \<Rightarrow> Inl TypeError)
           | None \<Rightarrow>
               (if exec MEDIA_OMITTED_PATTERN content \<noteq> None then Inr \<lparr>type = MediaOmitted, media = None\<rparr>
                else if isSystemMessage content then Inr \<lparr>type = System, media = None\<rparr>
                else Inr \<lparr>type = Text, media = None\<rparr>)))"

section \<open>The transcript assembler\<close>

text \<open>A message record: the fields of the analysis (spread into it by the source) and its own.\<close>

record message = analysis +
  msgId :: jsstring
  timestamp :: jsstring
  sender :: jsstring
  content :: jsstring

text \<open>The variables of the loop of \<^verbatim>\<open>parseChatFile\<close>.\<close>

record pstate =
  messages :: "message list"
  currentMessage :: "message option"
  messageId :: nat

text \<open>\<^verbatim>\<open>line.replace(/[\u200E\u200F\u202A-\u202E]/g, '').trim()\<close>\<close>

definition cleanLine :: "jsstring \<Rightarrow> jsstring" where
  "cleanLine line = trim (filter (\<lambda>c. \<not> isInvisible c) line)"

text \<open>
  The three attempts of the loop body: the match, \<^verbatim>\<open>isSystemMessage\<close> and
  \<^verbatim>\<open>formatType\<close> as they stand when the attempts are over.
\<close>

definition tryPatterns :: "jsstring \<Rightarrow> captures option \<times> bool \<times> nat" where
  "tryPatterns line =
     (case exec MESSAGE_START_PATTERN_1 line of
        Some m \<Rightarrow> (Some m, False, 1)
      | None \<Rightarrow>
          (case exec MESSAGE_START_PATTERN_2 line of
             Some m \<Rightarrow> (Some m, False, 2)
           | None \<Rightarrow>
               (case exec MESSAGE_START_PATTERN_2_SYSTEM line of
                  Some m \<Rightarrow> (Some m, True, 2)
                | None \<Rightarrow> (None, False, 1))))"

text \<open>\<^verbatim>\<open>if (currentMessage) messages.push(currentMessage)\<close>\<close>

definition flush :: "pstate \<Rightarrow> message list" where
  "flush st = (case currentMessage st of None \<Rightarrow> messages st | Some cm \<Rightarrow> messages st @ [cm])"

text \<open>The record that a start line opens; \<open>n\<close> is the counter after \<^verbatim>\<open>++messageId\<close>.\<close>

definition newMessage :: "captures \<Rightarrow> bool \<Rightarrow> nat \<Rightarrow> nat \<Rightarrow> jserror + message" where
  "newMessage m isSystem formatType n =
     (if isSystem then
        (case (m 1, m 2, m 3) of
           (Some dateStr, Some timeStr, Some messageContent) \<Rightarrow>
             (case parseDateTime dateStr timeStr formatType of
                Inl e \<Rightarrow> Inl e
              | Inr ts \<Rightarrow>
                  Inr \<lparr>type = System, media = None, msgId = js ''msg_'' @ showNat n, timestamp = ts,
                       sender = js ''System'', content = trim messageContent\<rparr>)
         | _ \<Rightarrow> Inl TypeError)
      else
        (case (m 1, m 2, m 3, m 4) of
           (Some dateStr, Some timeStr, Some sender', Some messageContent) \<Rightarrow>
             (case parseDateTime dateStr timeStr formatType of
                Inl e \<Rightarrow> Inl e
              | Inr ts \<Rightarrow>
                  (case analyzeMessage messageContent of
                     Inl e \<Rightarrow> Inl e
                   | Inr a \<Rightarrow>
                       Inr \<lparr>type = type a, media = media a, msgId = js ''msg_'' @ showNat n,
                            timestamp = ts, sender = trim sender', content = trim messageContent\<rparr>))
         | _ \<Rightarrow> Inl TypeError))"

text \<open>One turn of the loop over the lines.\<close>

definition step :: "pstate \<Rightarrow> jsstring \<Rightarrow> jserror + pstate" where
  "step st rawLine =
     (let line = cleanLine rawLine in
      if line = [] then Inr st
      else
        (case tryPatterns line of
           (Some m, isSystem, formatType) \<Rightarrow>
             (case newMessage m isSystem formatType (messageId st + 1) of
                Inl e \<Rightarrow> Inl e
              | Inr msg \<Rightarrow>
                  Inr \<lparr>messages = flush st, currentMessage = Some msg, messageId = messageId st + 1\<rparr>)
         | (None, _, _) \<Rightarrow>
             (case currentMessage st of
                Some cm \<Rightarrow> Inr (st\<lparr>currentMessage := Some (cm\<lparr>content := content cm @ [10] @ line\<rparr>)\<rparr>)
              | None \<Rightarrow> Inr st)))"

fun run :: "pstate \<Rightarrow> jsstring list \<Rightarrow> jserror + pstate" where
  "run st [] = Inr st"
| "run st (l # ls) = (case step st l of Inl e \<Rightarrow> Inl e | Inr st' \<Rightarrow> run st' ls)"

text \<open>\<^verbatim>\<open>content.replace(/\r\n/g, '\n')\<close>\<close>

fun replaceCrLf :: "jsstring \<Rightarrow> jsstring" where
  "replaceCrLf (x # y # rest) =
     (if x = 13 \<and> y = 10 then 10 # replaceCrLf rest else x # replaceCrLf (y # rest))"
| "replaceCrLf s = s"

text \<open>
  \<^verbatim>\<open>parseChatFile\<close>, from the text that \<^verbatim>\<open>readFile\<close> returned: the lines, the loop,
  and the last open message.
\<close>

definition parseLines :: "jsstring list \<Rightarrow> jserror + message list" where
  "parseLines lines =
     (case run \<lparr>messages = [], currentMessage = None, messageId = 0\<rparr> lines of
        Inl e \<Rightarrow> Inl e
      | Inr st \<Rightarrow> Inr (flush st))"

definition parseChatFile :: "jsstring \<Rightarrow> jserror + message list" where
  "parseChatFile fileText = parseLines (split 10 (replaceCrLf fileText))"

section \<open>The metadata extractor\<close>

text \<open>
  \<^verbatim>\<open>Date\<close> belongs to the JavaScript runtime. Its time value is the number of
  milliseconds since 1970-01-01T00:00:00Z. What the extractor needs of the runtime is
  the local time zone, taken here as a fixed offset \<open>tzOffset\<close> in minutes ahead of
  UTC, and the clock, \<open>now\<close>.
\<close>

record jsenv =
  tzOffset :: int
  now :: int

text \<open>Days between 1970-01-01 and a day of the proleptic Gregorian calendar, and back.\<close>

definition daysFromCivil :: "int \<Rightarrow> int \<Rightarrow> int \<Rightarrow> int" where
  "daysFromCivil y m d =
     (let y' = (if m \<le> 2 then y - 1 else y);
          era = y' div 400;
          yoe = y' - era * 400;
          doy = (153 * (if m > 2 then m - 3 else m + 9) + 2) div 5 + d - 1;
          doe = yoe * 365 + yoe div 4 - yoe div 100 + doy
      in era * 146097 + doe - 719468)"

definition civilFromDays :: "int \<Rightarrow> int \<times> int \<times> int" where
  "civilFromDays z =
     (let z' = z + 719468;
          era = z' div 146097;
          doe = z' - era * 146097;
          yoe = (doe - doe div 1460 + doe div 36524 - doe div 146096) div 365;
          doy = doe - (365 * yoe + yoe div 4 - yoe div 100);
          mp = (5 * doy + 2) div 153;
          d = doy - (153 * mp + 2) div 5 + 1;
          m = (if mp < 10 then mp + 3 else mp - 9)
      in (if m \<le> 2 then yoe + era * 400 + 1 else yoe + era * 400, m, d))"

definition daysInMonth :: "int \<Rightarrow> int \<Rightarrow> int" where
  "daysInMonth y m =
     (if m = 2 then (if y mod 4 = 0 \<and> (y mod 100 \<noteq> 0 \<or> y mod 400 = 0) then 29 else 28)
      else if m = 4 \<or> m = 6 \<or> m = 9 \<or> m = 11 then 30 else 31)"

text \<open>
  \<^verbatim>\<open>new Date(s)\<close> for a string of the date-time format of ECMAScript without an
  offset, \<^verbatim>\<open>YYYY-MM-DDTHH:mm:ss\<close> with every field in range: it is read as local
  time. For every other string the standard leaves the result to the implementation,
  and the model does not follow it (\<open>None\<close>).
\<close>

definition dateParse :: "int \<Rightarrow> jsstring \<Rightarrow> int option" where
  "dateParse tz s =
     (let num = (\<lambda>i n. int (decimalValue (take n (drop i s))));
          y = num 0 4; mo = num 5 2; d = num 8 2; h = num 11 2; mi = num 14 2; se = num 17 2
      in if length s = 19
            \<and> list_all isDigit (take 4 s) \<and> take 1 (drop 4 s) = js ''-''
            \<and> list_all isDigit (take 2 (drop 5 s)) \<and> take 1 (drop 7 s) = js ''-''
            \<and> list_all isDigit (take 2 (drop 8 s)) \<and> take 1 (drop 10 s) = js ''T''
            \<and> list_all isDigit (take 2 (drop 11 s)) \<and> take 1 (drop 13 s) = js '':''
            \<and> list_all isDigit (take 2 (drop 14 s)) \<and> take 1 (drop 16 s) = js '':''
            \<and> list_all isDigit (take 2 (drop 17 s))
            \<and> 1 \<le> mo \<and> mo \<le> 12 \<and> 1 \<le> d \<and> d \<le> daysInMonth y mo \<and> h \<le> 23 \<and> mi \<le> 59 \<and> se \<le> 59
         then Some ((daysFromCivil y mo d * 86400 + h * 3600 + mi * 60 + se - tz * 60) * 1000)
         else None)"

text \<open>
  \<^verbatim>\<open>date.toISOString().split('T')[0]\<close>: the UTC calendar day of a time value. The
  years 0 to 9999 are printed with four digits, the others with a sign and six.
\<close>

definition padZeros :: "nat \<Rightarrow> jsstring \<Rightarrow> jsstring" where
  "padZeros n s = replicate (n - length s) 48 @ s"

definition isoDay :: "int \<Rightarrow> jsstring" where
  "isoDay t =
     (case civilFromDays (t div 86400000) of
        (y, m, d) \<Rightarrow>
          (if 0 \<le> y \<and> y \<le> 9999 then padZeros 4 (showNat (nat y))
           else (if y < 0 then js ''-'' else js ''+'') @ padZeros 6 (showNat (nat \<bar>y\<bar>)))
          @ js ''-'' @ padZeros 2 (showNat (nat m)) @ js ''-'' @ padZeros 2 (showNat (nat d)))"

record dateRange =
  startDate :: "jsstring option"
  endDate :: "jsstring option"

record metadata =
  chatName :: jsstring
  exportDate :: jsstring
  messageCount :: nat
  participants :: "jsstring list"
  dateRange :: dateRange

text \<open>\<^verbatim>\<open>participants.add(x)\<close> on a \<^verbatim>\<open>Set\<close>, which keeps the order of insertion.\<close>

definition setAdd :: "jsstring list \<Rightarrow> jsstring \<Rightarrow> jsstring list" where
  "setAdd xs x = (if x \<in> set xs then xs else xs @ [x])"

text \<open>The body of \<^verbatim>\<open>messages.forEach\<close> over \<open>participants\<close>, \<open>earliestDate\<close>, \<open>latestDate\<close>.\<close>

fun forEachMessage :: "int \<Rightarrow> message list \<Rightarrow> jsstring list \<times> int option \<times> int option
                        \<Rightarrow> jserror + (jsstring list \<times> int option \<times> int option)" where
  "forEachMessage tz [] acc = Inr acc"
| "forEachMessage tz (msg # rest) (ps, earliestDate, latestDate) =
     (case dateParse tz (timestamp msg) of
        None \<Rightarrow> Inl NotModelled
      | Some msgDate \<Rightarrow>
          forEachMessage tz rest
            (if type msg \<noteq> System then setAdd ps (sender msg) else ps,
             (case earliestDate of None \<Rightarrow> Some msgDate
              | Some e \<Rightarrow> if msgDate < e then Some msgDate else Some e),
             (case latestDate of None \<Rightarrow> Some msgDate
              | Some l \<Rightarrow> if msgDate > l then Some msgDate else Some l)))"

definition extractMetadata :: "jsenv \<Rightarrow> message list \<Rightarrow> jsstring \<Rightarrow> jserror + metadata" where
  "extractMetadata env msgs name =
     (case forEachMessage (tzOffset env) msgs ([], None, None) of
        Inl e \<Rightarrow> Inl e
      | Inr (ps, earliestDate, latestDate) \<Rightarrow>
          Inr \<lparr>chatName = name, exportDate = isoDay (now env), messageCount = length msgs,
               participants = ps,
               dateRange = \<lparr>startDate = map_option isoDay earliestDate,
                              endDate = map_option isoDay latestDate\<rparr>\<rparr>)"

section \<open>Shapes of tokens\<close>

text \<open>A numeric field: a run of decimal digits that is not empty.\<close>

definition numField :: "jsstring \<Rightarrow> bool" where
  "numField s \<longleftrightarrow> s \<noteq> [] \<and> list_all isDigit s"

text \<open>The digits of a time token: hour, minute and, when present, second, with colons between.\<close>

definition clockOf :: "jsstring \<Rightarrow> jsstring \<Rightarrow> jsstring option \<Rightarrow> jsstring" where
  "clockOf h m secs = h @ js '':'' @ m @ (case secs of None \<Rightarrow> [] | Some s \<Rightarrow> js '':'' @ s)"

section \<open>The language of an expression\<close>

text \<open>
  The words that an expression without anchors matches, as a set: the reference against
  which the matcher \<open>rx\<close> is characterised. \<open>plain\<close> expressions have neither
  groups nor \<^verbatim>\<open>$\<close>.
\<close>

fun plain :: "regex \<Rightarrow> bool" where
  "plain (Lit l) = True"
| "plain (Cls k) = True"
| "plain (Rep k lo hi g) = True"
| "plain (Cat a b) = (plain a \<and> plain b)"
| "plain (Alt a b) = (plain a \<and> plain b)"
| "plain (Grp i a) = False"
| "plain Eol = False"

fun lang :: "bool \<Rightarrow> regex \<Rightarrow> jsstring set" where
  "lang ci (Lit l) = {w. map (canon ci) w = map (canon ci) l}"
| "lang ci (Cls k) = {w. \<exists>x. w = [x] \<and> inClass ci k x}"
| "lang ci (Rep k lo hi g) =
     {w. lo \<le> length w \<and> (case hi of None \<Rightarrow> True | Some h \<Rightarrow> length w \<le> h) \<and> (\<forall>x\<in>set w. inClass ci k x)}"
| "lang ci (Cat a b) = {w. \<exists>u v. w = u @ v \<and> u \<in> lang ci a \<and> v \<in> lang ci b}"
| "lang ci (Alt a b) = lang ci a \<union> lang ci b"
| "lang ci (Grp i a) = lang ci a"
| "lang ci Eol = {[]}"

text \<open>The sender, body and remainder parts of the start patterns.\<close>

definition senderRx :: regex where
  "senderRx = Rep (NoneOf (js '':'')) 1 None True"

definition bodyRx :: regex where
  "bodyRx = Rep Dot 0 None True"

definition restRx :: regex where
  "restRx = Rep Dot 1 None True"

text \<open>The groups that every match of an expression sets.\<close>

fun groupsOf :: "regex \<Rightarrow> nat set" where
  "groupsOf (Grp i a) = insert i (groupsOf a)"
| "groupsOf (Cat a b) = groupsOf a \<union> groupsOf b"
| "groupsOf (Alt a b) = groupsOf a \<inter> groupsOf b"
| "groupsOf (Lit l) = {}"
| "groupsOf (Cls k) = {}"
| "groupsOf (Rep k lo hi g) = {}"
| "groupsOf Eol = {}"

section \<open>Start lines and the records they open\<close>

text \<open>A start line: a line that is not blank once cleaned and that one of the three patterns matches.\<close>

definition isStartLine :: "jsstring \<Rightarrow> bool" where
  "isStartLine l \<longleftrightarrow> cleanLine l \<noteq> [] \<and> fst (tryPatterns (cleanLine l)) \<noteq> None"

text \<open>The record that a start line opens when the counter becomes \<open>n\<close>.\<close>

definition opened :: "jsstring \<Rightarrow> nat \<Rightarrow> message option" where
  "opened l n =
     (case tryPatterns (cleanLine l) of
        (None, _, _) \<Rightarrow> None
      | (Some m, isSystem, formatType) \<Rightarrow>
          (case newMessage m isSystem formatType n of Inl e \<Rightarrow> None | Inr msg \<Rightarrow> Some msg))"

text \<open>What a run of lines that are not start lines appends to the open message: a line break and the cleaned line, for each line that is not blank.\<close>

definition joined :: "jsstring list \<Rightarrow> jsstring" where
  "joined ls = concat (map (\<lambda>l. 10 # cleanLine l) (filter (\<lambda>l. cleanLine l \<noteq> []) ls))"

text \<open>\<open>msg\<close> is the record that start line \<open>l\<close> opened with counter \<open>n\<close>, with any continuation appended to its content.\<close>

definition recordOf :: "jsstring \<Rightarrow> nat \<Rightarrow> message \<Rightarrow> bool" where
  "recordOf l n msg \<longleftrightarrow>
     (case opened l n of
        None \<Rightarrow> False
      | Some m0 \<Rightarrow> msg = m0\<lparr>content := content msg\<rparr> \<and> isPrefixOf (content m0) (content msg))"

text \<open>The invariant of the loop: the messages so far (the open one last) are, in order, the records of the start lines seen so far, numbered from 1.\<close>

definition tracks :: "pstate \<Rightarrow> jsstring list \<Rightarrow> bool" where
  "tracks st seen \<longleftrightarrow>
     length (flush st) = messageId st
     \<and> length (filter isStartLine seen) = messageId st
     \<and> (\<forall>i<messageId st. recordOf (filter isStartLine seen ! i) (i + 1) (flush st ! i))"

section \<open>Degenerate inputs\<close>

text \<open>
  C9. An empty transcript is parsed without an error into the empty sequence of
  messages, and the metadata of the empty sequence is computed without an error: the
  count is 0, there is no participant, and both ends of the date span are null.
\<close>

theorem empty_inputs_are_not_errors:
  "parseChatFile [] = Inr []
   \<and> extractMetadata env [] name =
       Inr \<lparr>chatName = name, exportDate = isoDay (now env), messageCount = 0, participants = [],
            dateRange = \<lparr>startDate = None, endDate = None\<rparr>\<rparr>"
  by (simp add: parseChatFile_def parseLines_def split_def step_def cleanLine_def trim_def flush_def
      extractMetadata_def)

section \<open>Strings, numbers and pieces of tokens\<close>

text \<open>The equations that evaluate the primitives on a concrete input.\<close>

lemmas evals = js_def isWs_def isLineTerminator_def isDigit_def isInvisible_def trim_def split_def
  nth_opt_def toStr_def padStart2_def lowerUnit_def toLowerCase_def decimalValue_def showNat.simps
  isHexDigit_def hexDigitValue_def parseInt_def gt12_def Number_def Let_def canon_def
  parseDateTime_def numField_def clockOf_def

lemmas rx_evals = exec_def matchAt_def tryPatterns_def cleanLine_def isStartLine_def
  MESSAGE_START_PATTERN_1_def MESSAGE_START_PATTERN_2_def MESSAGE_START_PATTERN_2_SYSTEM_def
  dateRx_def timeRx1_def timeRx2_def

lemma splitWhere_none: "\<forall>c\<in>set a. \<not> p c \<Longrightarrow> splitWhere p a = [a]"
  by (induction a) auto

lemma splitWhere_sep:
  "\<forall>c\<in>set a. \<not> p c \<Longrightarrow> p x \<Longrightarrow> splitWhere p (a @ x # r) = a # splitWhere p r"
  by (induction a) auto

lemma splitWhere_nonempty: "splitWhere p s \<noteq> []"
  by (induction s) (auto split: list.splits)



lemma Number_digits: "list_all isDigit ds \<Longrightarrow> length ds \<le> 15 \<Longrightarrow> Number ds = Some (decimalValue ds)"
  by (simp add: Number_def)

lemma numField_no_slash: "numField s \<Longrightarrow> \<forall>c\<in>set s. \<not> c = 47"
  by (auto simp: numField_def list_all_iff isDigit_def)

lemma split_date_token:
  assumes "numField a" "numField b" "\<forall>c\<in>set y. c \<noteq> 47"
  shows "split 47 (a @ js ''/'' @ b @ js ''/'' @ y) = [a, b, y]"
  using assms
  by (simp add: split_def js_def splitWhere_sep splitWhere_none numField_no_slash)

lemma isPrefixOf_append: "isPrefixOf p (p @ r)"
  by (induction p) auto

lemma isPrefixOf_append7:
  "isPrefixOf (a @ b @ c @ d @ e @ f @ g) (a @ b @ c @ d @ e @ f @ g @ r)"
  using isPrefixOf_append [of "a @ b @ c @ d @ e @ f @ g" r] by simp

lemma numField_no_colon: "numField s \<Longrightarrow> \<forall>c\<in>set s. \<not> c = 58"
  by (auto simp: numField_def list_all_iff isDigit_def)

lemma numField_no_sep: "numField s \<Longrightarrow> \<forall>c\<in>set s. \<not> (isWs c \<or> c = 8239)"
  by (auto simp: numField_def list_all_iff isDigit_def isWs_def)

lemma split_clock:
  assumes "numField h" "numField m" "case secs of None \<Rightarrow> True | Some s \<Rightarrow> numField s"
  shows "split 58 (clockOf h m secs) = (case secs of None \<Rightarrow> [h, m] | Some s \<Rightarrow> [h, m, s])"
  using assms
  by (cases secs)
     (simp_all add: clockOf_def split_def js_def splitWhere_sep splitWhere_none numField_no_colon)

lemma clock_no_sep:
  assumes "numField h" "numField m" "case secs of None \<Rightarrow> True | Some s \<Rightarrow> numField s"
  shows "\<forall>c\<in>set (clockOf h m secs). \<not> (isWs c \<or> c = 8239)"
proof -
  have "\<not> (isWs 58 \<or> (58::nat) = 8239)" by (simp add: isWs_def)
  then show ?thesis
    using assms numField_no_sep[of h] numField_no_sep[of m]
    by (cases secs) (auto simp: clockOf_def js_def dest: numField_no_sep)
qed

lemma split_time_token:
  assumes "numField h" "numField m" "case secs of None \<Rightarrow> True | Some s \<Rightarrow> numField s"
    and "isWs sep \<or> sep = 8239" and "marker = js ''AM'' \<or> marker = js ''PM''"
  shows "splitWhere (\<lambda>c. isWs c \<or> c = 8239) (clockOf h m secs @ [sep] @ marker) = [clockOf h m secs, marker]"
proof -
  have "\<forall>c\<in>set marker. \<not> (isWs c \<or> c = 8239)"
    using assms(5) by (auto simp: js_def isWs_def)
  then show ?thesis
    using clock_no_sep[OF assms(1-3)] assms(4)
    by (simp add: splitWhere_sep splitWhere_none)
qed

lemma nth_opt_Cons0: "nth_opt (x # xs) 0 = Some x"
  and nth_opt_Cons1: "nth_opt (x # y # xs) (Suc 0) = Some y"
  and nth_opt_Cons2: "nth_opt (x # y # z # xs) 2 = Some z"
  by (simp_all add: nth_opt_def)



section \<open>Resolution of the order of day and month\<close>



text \<open>
  The older two-argument normalizer has no dialect: it reads day then month whatever
  the fields are, so it differs from the one above on a token whose second field alone
  is above 12.
\<close>

lemma legacy_reads_day_first:
  assumes "numField a" and "numField b" and "numField y"
    and "parseDateTime_legacy (a @ js ''/'' @ b @ js ''/'' @ y) timeStr = Inr ts"
  shows "isPrefixOf (js ''20'' @ y @ js ''-'' @ padStart2 b @ js ''-'' @ padStart2 a @ js ''T'') ts"
proof -
  have parts: "split 47 (a @ js ''/'' @ b @ js ''/'' @ y) = [a, b, y]"
    using assms(1-3) by (simp add: split_date_token numField_no_slash)
  show ?thesis
    using assms(4) unfolding parseDateTime_legacy_def parts
    by (auto simp: Let_def nth_opt_def toStr_def isPrefixOf_append7 split: option.splits if_splits)
qed

lemma legacy_example:
  "parseDateTime_legacy (js ''01/13/25'') (js ''11:52:46 AM'') = Inr (js ''2025-13-01T11:52:46'')"
  "parseDateTime (js ''01/13/25'') (js ''11:52:46 AM'') 1 = Inr (js ''2025-01-13T11:52:46'')"
  by (simp_all add: parseDateTime_legacy_def evals)

section \<open>Conversion of the 12-hour clock\<close>



section \<open>The matcher against the language\<close>

lemma le_length_takeWhile:
  "k \<le> length (takeWhile P s) \<longleftrightarrow> k \<le> length s \<and> (\<forall>x\<in>set (take k s). P x)"
proof (induction s arbitrary: k)
  case Nil
  then show ?case by simp
next
  case (Cons a s)
  then show ?case by (cases k) auto
qed

lemma rx_Lit_iff:
  "(c', r) \<in> set (rx ci (Lit l) c s) \<longleftrightarrow> c' = c \<and> (\<exists>w. s = w @ r \<and> map (canon ci) w = map (canon ci) l)"
proof
  assume "(c', r) \<in> set (rx ci (Lit l) c s)"
  then have a: "length l \<le> length s" "map (canon ci) (take (length l) s) = map (canon ci) l"
    "c' = c" "r = drop (length l) s"
    by (auto split: if_splits)
  have "s = take (length l) s @ r" using a(4) by simp
  then show "c' = c \<and> (\<exists>w. s = w @ r \<and> map (canon ci) w = map (canon ci) l)"
    using a by blast
next
  assume "c' = c \<and> (\<exists>w. s = w @ r \<and> map (canon ci) w = map (canon ci) l)"
  then obtain w where w: "c' = c" "s = w @ r" "map (canon ci) w = map (canon ci) l" by blast
  have "length w = length l" using w(3) by (metis length_map)
  then show "(c', r) \<in> set (rx ci (Lit l) c s)"
    using w by simp
qed

lemma rx_Cls_iff:
  "(c', r) \<in> set (rx ci (Cls k) c s) \<longleftrightarrow> c' = c \<and> (\<exists>x. s = x # r \<and> inClass ci k x)"
  by (cases s) auto

lemma rx_Rep_iff:
  "(c', r) \<in> set (rx ci (Rep k lo hi g) c s) \<longleftrightarrow>
     c' = c \<and> (\<exists>w. s = w @ r \<and> lo \<le> length w
                  \<and> (case hi of None \<Rightarrow> True | Some h \<Rightarrow> length w \<le> h)
                  \<and> (\<forall>x\<in>set w. inClass ci k x))"
  (is "?L \<longleftrightarrow> ?R")
proof -
  define run where "run = length (takeWhile (inClass ci k) s)"
  define top where "top = (case hi of None \<Rightarrow> run | Some h \<Rightarrow> min h run)"
  have cs: "set (if g then rev [lo..<Suc top] else [lo..<Suc top]) = {lo..top}"
    by (cases g) (simp_all del: upt_Suc add: atLeastLessThanSuc_atLeastAtMost)
  have "rx ci (Rep k lo hi g) c s
          = map (\<lambda>n. (c, drop n s)) (if g then rev [lo..<Suc top] else [lo..<Suc top])"
    unfolding top_def run_def by (simp add: Let_def del: upt_Suc)
  then have "set (rx ci (Rep k lo hi g) c s) = (\<lambda>n. (c, drop n s)) ` {lo..top}"
    using cs by (simp only: set_map)
  then have L: "?L \<longleftrightarrow> c' = c \<and> (\<exists>n. lo \<le> n \<and> n \<le> top \<and> r = drop n s)"
    by auto
  have "(\<exists>n. lo \<le> n \<and> n \<le> top \<and> r = drop n s) \<longleftrightarrow>
        (\<exists>w. s = w @ r \<and> lo \<le> length w
                  \<and> (case hi of None \<Rightarrow> True | Some h \<Rightarrow> length w \<le> h)
                  \<and> (\<forall>x\<in>set w. inClass ci k x))" (is "?A \<longleftrightarrow> ?B")
  proof
    assume ?A
    then obtain n where n: "lo \<le> n" "n \<le> top" "r = drop n s" by blast
    have nr: "n \<le> run" using n(2) by (auto simp: top_def split: option.splits)
    then have ns: "n \<le> length s" and cl: "\<forall>x\<in>set (take n s). inClass ci k x"
      unfolding run_def le_length_takeWhile by auto
    have "s = take n s @ r" using n(3) by simp
    moreover have "length (take n s) = n" using ns by simp
    moreover have "case hi of None \<Rightarrow> True | Some h \<Rightarrow> n \<le> h"
      using n(2) by (auto simp: top_def split: option.splits)
    ultimately show ?B using n(1) cl by (metis (no_types, lifting))
  next
    assume ?B
    then obtain w where w: "s = w @ r" "lo \<le> length w"
      "case hi of None \<Rightarrow> True | Some h \<Rightarrow> length w \<le> h" "\<forall>x\<in>set w. inClass ci k x" by blast
    have "length w \<le> run"
      unfolding run_def le_length_takeWhile using w(1,4) by simp
    then have "length w \<le> top" using w(3) by (auto simp: top_def split: option.splits)
    moreover have "r = drop (length w) s" using w(1) by simp
    ultimately show ?A using w(2) by blast
  qed
  with L show ?thesis by simp
qed

lemma rx_Cat_iff:
  "(c', r) \<in> set (rx ci (Cat a b) c s) \<longleftrightarrow>
     (\<exists>c1 r1. (c1, r1) \<in> set (rx ci a c s) \<and> (c', r) \<in> set (rx ci b c1 r1))"
  by auto

lemma rx_Alt_iff:
  "(c', r) \<in> set (rx ci (Alt a b) c s) \<longleftrightarrow>
     (c', r) \<in> set (rx ci a c s) \<or> (c', r) \<in> set (rx ci b c s)"
  by auto

lemma rx_Grp_iff:
  "(c', r) \<in> set (rx ci (Grp i a) c s) \<longleftrightarrow>
     (\<exists>c1. (c1, r) \<in> set (rx ci a c s) \<and> c' = c1(i \<mapsto> take (length s - length r) s))"
  by auto

lemma rx_Eol_iff:
  "(c', r) \<in> set (rx ci Eol c s) \<longleftrightarrow> c' = c \<and> s = [] \<and> r = []"
  by auto

lemma rx_plain:
  "plain re \<Longrightarrow> (c', r) \<in> set (rx ci re c s) \<longleftrightarrow> c' = c \<and> (\<exists>w. w \<in> lang ci re \<and> s = w @ r)"
proof (induction re arbitrary: c s c' r)
  case (Lit l)
  show ?case unfolding rx_Lit_iff by auto
next
  case (Cls k)
  show ?case unfolding rx_Cls_iff by auto
next
  case (Rep k lo hi g)
  show ?case unfolding rx_Rep_iff by auto
next
  case (Cat a b)
  then have pa: "plain a" and pb: "plain b" by simp_all
  show ?case unfolding rx_Cat_iff Cat.IH(1)[OF pa] Cat.IH(2)[OF pb]
  proof (intro iffI)
    assume "\<exists>c1 r1. (c1 = c \<and> (\<exists>w. w \<in> lang ci a \<and> s = w @ r1))
                    \<and> c' = c1 \<and> (\<exists>w. w \<in> lang ci b \<and> r1 = w @ r)"
    then obtain u v r1 where "c' = c" "u \<in> lang ci a" "s = u @ r1" "v \<in> lang ci b" "r1 = v @ r"
      by blast
    then have "u @ v \<in> lang ci (Cat a b)" "s = (u @ v) @ r" by auto
    with \<open>c' = c\<close> show "c' = c \<and> (\<exists>w. w \<in> lang ci (Cat a b) \<and> s = w @ r)" by blast
  next
    assume "c' = c \<and> (\<exists>w. w \<in> lang ci (Cat a b) \<and> s = w @ r)"
    then obtain u v where "c' = c" "u \<in> lang ci a" "v \<in> lang ci b" "s = u @ (v @ r)" by auto
    then show "\<exists>c1 r1. (c1 = c \<and> (\<exists>w. w \<in> lang ci a \<and> s = w @ r1))
                    \<and> c' = c1 \<and> (\<exists>w. w \<in> lang ci b \<and> r1 = w @ r)"
      by blast
  qed
next
  case (Alt a b)
  then have pa: "plain a" and pb: "plain b" by simp_all
  show ?case unfolding rx_Alt_iff Alt.IH(1)[OF pa] Alt.IH(2)[OF pb]
    by auto
next
  case (Grp i a)
  then show ?case by simp
next
  case Eol
  then show ?case by simp
qed

lemma rx_Grp_plain:
  assumes "plain a"
  shows "(c', r) \<in> set (rx ci (Grp i a) c s) \<longleftrightarrow>
           (\<exists>w. w \<in> lang ci a \<and> s = w @ r \<and> c' = c(i \<mapsto> w))"
  unfolding rx_Grp_iff rx_plain[OF assms] by auto

lemma canon_False [simp]: "canon False c = c"
  by (simp add: canon_def)

lemma map_canon_False [simp]: "map (canon False) w = w"
  by (induction w) auto

lemma lang_Lit_False: "w \<in> lang False (Lit l) \<longleftrightarrow> w = l"
  by simp

lemma lang_Cat: "w \<in> lang ci (Cat a b) \<longleftrightarrow> (\<exists>u v. w = u @ v \<and> u \<in> lang ci a \<and> v \<in> lang ci b)"
  by simp

lemma lang_digits:
  "w \<in> lang ci (Rep Digit lo (Some hi) g) \<longleftrightarrow> lo \<le> length w \<and> length w \<le> hi \<and> list_all isDigit w"
  by (auto simp: list_all_iff)

lemma lang_CatE:
  assumes "w \<in> lang ci (Cat a b)"
  obtains u v where "w = u @ v" "u \<in> lang ci a" "v \<in> lang ci b"
  using assms by auto

lemma lang_LitCatE:
  assumes "w \<in> lang False (Cat (Lit l) b)"
  obtains v where "w = l @ v" "v \<in> lang False b"
  using assms by auto

lemma lang_CatI: "u \<in> lang ci a \<Longrightarrow> v \<in> lang ci b \<Longrightarrow> u @ v \<in> lang ci (Cat a b)"
  by auto

lemma lang_digits_numField:
  "w \<in> lang ci (Rep Digit 1 (Some 2) g) \<longleftrightarrow> numField w \<and> length w \<le> 2"
  "w \<in> lang ci (Rep Digit 2 (Some 2) g) \<longleftrightarrow> numField w \<and> length w = 2"
  unfolding lang_digits numField_def by (cases w; auto)+

lemma lang_AP: "w \<in> lang False (Cls (OneOf (js ''AP''))) \<longleftrightarrow> (\<exists>p. w = [p] \<and> (p = 65 \<or> p = 80))"
  by (auto simp: js_def)

lemma lang_sep: "w \<in> lang False (Cls (Union Space (OneOf [8239]))) \<longleftrightarrow> (\<exists>c. w = [c] \<and> (isWs c \<or> c = 8239))"
  by auto

lemma lang_dateRx_D:
  assumes "d \<in> lang False dateRx"
  shows "\<exists>a b y. d = a @ js ''/'' @ b @ js ''/'' @ y \<and> numField a \<and> length a \<le> 2 \<and> numField b \<and> length b \<le> 2
              \<and> numField y \<and> length y = 2"
proof -
  from assms[unfolded dateRx_def seq.simps]
  obtain a v1 where 1: "d = a @ v1" "a \<in> lang False (Rep Digit 1 (Some 2) True)"
    and r1: "v1 \<in> lang False (Cat (Lit (js ''/'')) (Cat (Rep Digit 1 (Some 2) True) (Cat (Lit (js ''/''))
               (Rep Digit 2 (Some 2) True))))"
    by (rule lang_CatE)
  from r1 obtain v2 where 2: "v1 = js ''/'' @ v2"
    and r2: "v2 \<in> lang False (Cat (Rep Digit 1 (Some 2) True) (Cat (Lit (js ''/'')) (Rep Digit 2 (Some 2) True)))"
    by (rule lang_LitCatE)
  from r2 obtain b v3 where 3: "v2 = b @ v3" "b \<in> lang False (Rep Digit 1 (Some 2) True)"
    and r3: "v3 \<in> lang False (Cat (Lit (js ''/'')) (Rep Digit 2 (Some 2) True))"
    by (rule lang_CatE)
  from r3 obtain y where 4: "v3 = js ''/'' @ y" "y \<in> lang False (Rep Digit 2 (Some 2) True)"
    by (rule lang_LitCatE)
  have "d = a @ js ''/'' @ b @ js ''/'' @ y" using 1(1) 2 3(1) 4(1) by simp
  then show ?thesis using 1(2) 3(2) 4(2) unfolding lang_digits_numField by blast
qed

lemma lang_timeRx2_D:
  assumes "t \<in> lang False timeRx2"
  shows "\<exists>h m w p. t = h @ js '':'' @ m @ [w, p, 77] \<and> numField h \<and> length h \<le> 2 \<and> numField m \<and> length m = 2
               \<and> (isWs w \<or> w = 8239) \<and> (p = 65 \<or> p = 80)"
proof -
  from assms[unfolded timeRx2_def seq.simps]
  obtain h v1 where 1: "t = h @ v1" "h \<in> lang False (Rep Digit 1 (Some 2) True)"
    and r1: "v1 \<in> lang False (Cat (Lit (js '':'')) (Cat (Rep Digit 2 (Some 2) True)
               (Cat (Cls (Union Space (OneOf [8239]))) (Cat (Cls (OneOf (js ''AP''))) (Lit (js ''M''))))))"
    by (rule lang_CatE)
  from r1 obtain v2 where 2: "v1 = js '':'' @ v2"
    and r2: "v2 \<in> lang False (Cat (Rep Digit 2 (Some 2) True)
               (Cat (Cls (Union Space (OneOf [8239]))) (Cat (Cls (OneOf (js ''AP''))) (Lit (js ''M'')))))"
    by (rule lang_LitCatE)
  from r2 obtain m v3 where 3: "v2 = m @ v3" "m \<in> lang False (Rep Digit 2 (Some 2) True)"
    and r3: "v3 \<in> lang False (Cat (Cls (Union Space (OneOf [8239]))) (Cat (Cls (OneOf (js ''AP''))) (Lit (js ''M''))))"
    by (rule lang_CatE)
  from r3 obtain ws v4 where 4: "v3 = ws @ v4" "ws \<in> lang False (Cls (Union Space (OneOf [8239])))"
    and r4: "v4 \<in> lang False (Cat (Cls (OneOf (js ''AP''))) (Lit (js ''M'')))"
    by (rule lang_CatE)
  from r4 obtain ps v5 where 5: "v4 = ps @ v5" "ps \<in> lang False (Cls (OneOf (js ''AP'')))"
    and r5: "v5 \<in> lang False (Lit (js ''M''))"
    by (rule lang_CatE)
  from 4(2) obtain w where w: "ws = [w]" "isWs w \<or> w = 8239" unfolding lang_sep by blast
  from 5(2) obtain p where p: "ps = [p]" "p = 65 \<or> p = 80" unfolding lang_AP by blast
  have v5: "v5 = [77]" using r5 by (simp add: js_def)
  have "t = h @ js '':'' @ m @ [w, p, 77]" using 1(1) 2 3(1) 4(1) 5(1) w(1) p(1) v5 by simp
  then show ?thesis using 1(2) 3(2) w(2) p(2) unfolding lang_digits_numField by blast
qed

lemma lang_timeRx2_I:
  assumes "numField h" "length h \<le> 2" "numField m" "length m = 2" "isWs w \<or> w = 8239" "p = 65 \<or> p = 80"
  shows "h @ js '':'' @ m @ [w, p, 77] \<in> lang False timeRx2"
proof -
  have 1: "h \<in> lang False (Rep Digit 1 (Some 2) True)" using assms(1,2) unfolding lang_digits_numField by simp
  have 2: "m \<in> lang False (Rep Digit 2 (Some 2) True)" using assms(3,4) unfolding lang_digits_numField by simp
  have 3: "[w] \<in> lang False (Cls (Union Space (OneOf [8239])))" using assms(5) unfolding lang_sep by simp
  have 4: "[p] \<in> lang False (Cls (OneOf (js ''AP'')))" using assms(6) unfolding lang_AP by simp
  have 5: "[77] \<in> lang False (Lit (js ''M''))" by (simp add: js_def)
  have 0: "js '':'' \<in> lang False (Lit (js '':''))" by simp
  have "h @ js '':'' @ m @ [w] @ [p] @ [77] \<in> lang False timeRx2"
    unfolding timeRx2_def seq.simps
    by (intro lang_CatI 0 1 2 3 4 5)
  then show ?thesis by simp
qed

lemma lang_timeRx1_D:
  assumes "t \<in> lang False timeRx1"
  shows "\<exists>h m s p. t = h @ js '':'' @ m @ js '':'' @ s @ [32, p, 77] \<and> numField h \<and> length h \<le> 2
           \<and> numField m \<and> length m = 2 \<and> numField s \<and> length s = 2 \<and> (p = 65 \<or> p = 80)"
proof -
  from assms[unfolded timeRx1_def seq.simps]
  obtain h v1 where 1: "t = h @ v1" "h \<in> lang False (Rep Digit 1 (Some 2) True)"
    and r1: "v1 \<in> lang False (Cat (Lit (js '':'')) (Cat (Rep Digit 2 (Some 2) True) (Cat (Lit (js '':''))
               (Cat (Rep Digit 2 (Some 2) True) (Cat (Lit (js '' '')) (Cat (Cls (OneOf (js ''AP''))) (Lit (js ''M''))))))))"
    by (rule lang_CatE)
  from r1 obtain v2 where 2: "v1 = js '':'' @ v2"
    and r2: "v2 \<in> lang False (Cat (Rep Digit 2 (Some 2) True) (Cat (Lit (js '':''))
               (Cat (Rep Digit 2 (Some 2) True) (Cat (Lit (js '' '')) (Cat (Cls (OneOf (js ''AP''))) (Lit (js ''M'')))))))"
    by (rule lang_LitCatE)
  from r2 obtain m v3 where 3: "v2 = m @ v3" "m \<in> lang False (Rep Digit 2 (Some 2) True)"
    and r3: "v3 \<in> lang False (Cat (Lit (js '':''))
               (Cat (Rep Digit 2 (Some 2) True) (Cat (Lit (js '' '')) (Cat (Cls (OneOf (js ''AP''))) (Lit (js ''M''))))))"
    by (rule lang_CatE)
  from r3 obtain v4 where 4: "v3 = js '':'' @ v4"
    and r4: "v4 \<in> lang False (Cat (Rep Digit 2 (Some 2) True) (Cat (Lit (js '' '')) (Cat (Cls (OneOf (js ''AP''))) (Lit (js ''M'')))))"
    by (rule lang_LitCatE)
  from r4 obtain s v5 where 5: "v4 = s @ v5" "s \<in> lang False (Rep Digit 2 (Some 2) True)"
    and r5: "v5 \<in> lang False (Cat (Lit (js '' '')) (Cat (Cls (OneOf (js ''AP''))) (Lit (js ''M''))))"
    by (rule lang_CatE)
  from r5 obtain v6 where 6: "v5 = js '' '' @ v6" and r6: "v6 \<in> lang False (Cat (Cls (OneOf (js ''AP''))) (Lit (js ''M'')))"
    by (rule lang_LitCatE)
  from r6 obtain ps v7 where 7: "v6 = ps @ v7" "ps \<in> lang False (Cls (OneOf (js ''AP'')))"
    and r7: "v7 \<in> lang False (Lit (js ''M''))"
    by (rule lang_CatE)
  from 7(2) obtain p where p: "ps = [p]" "p = 65 \<or> p = 80" unfolding lang_AP by blast
  have v7: "v7 = [77]" using r7 by (simp add: js_def)
  have "t = h @ js '':'' @ m @ js '':'' @ s @ [32, p, 77]"
    using 1(1) 2 3(1) 4 5(1) 6 7(1) p(1) v7 by (simp add: js_def)
  then show ?thesis using 1(2) 3(2) 5(2) p(2) unfolding lang_digits_numField by blast
qed

text \<open>
  The tokens by their text: a date token is three numeric fields of one or two, one or
  two, and two digits with slashes between; a time token is the hour, the minutes and,
  in the bracket dialect, the seconds, with colons between, then a separator and AM or
  PM.
\<close>

lemma lang_dateRx_I:
  assumes "numField a" "length a \<le> 2" "numField b" "length b \<le> 2" "numField y" "length y = 2"
  shows "a @ js ''/'' @ b @ js ''/'' @ y \<in> lang False dateRx"
proof -
  have 1: "a \<in> lang False (Rep Digit 1 (Some 2) True)" using assms(1,2) unfolding lang_digits_numField by simp
  have 2: "b \<in> lang False (Rep Digit 1 (Some 2) True)" using assms(3,4) unfolding lang_digits_numField by simp
  have 3: "y \<in> lang False (Rep Digit 2 (Some 2) True)" using assms(5,6) unfolding lang_digits_numField by simp
  have 0: "js ''/'' \<in> lang False (Lit (js ''/''))" by simp
  show ?thesis
    unfolding dateRx_def seq.simps
    by (intro lang_CatI 0 1 2 3)
qed

lemma lang_timeRx1_I:
  assumes "numField h" "length h \<le> 2" "numField m" "length m = 2" "numField s" "length s = 2" "p = 65 \<or> p = 80"
  shows "h @ js '':'' @ m @ js '':'' @ s @ [32, p, 77] \<in> lang False timeRx1"
proof -
  have 1: "h \<in> lang False (Rep Digit 1 (Some 2) True)" using assms(1,2) unfolding lang_digits_numField by simp
  have 2: "m \<in> lang False (Rep Digit 2 (Some 2) True)" using assms(3,4) unfolding lang_digits_numField by simp
  have 3: "s \<in> lang False (Rep Digit 2 (Some 2) True)" using assms(5,6) unfolding lang_digits_numField by simp
  have 4: "[p] \<in> lang False (Cls (OneOf (js ''AP'')))" using assms(7) unfolding lang_AP by simp
  have 5: "[77] \<in> lang False (Lit (js ''M''))" by (simp add: js_def)
  have 6: "[32] \<in> lang False (Lit (js '' ''))" by (simp add: js_def)
  have 0: "js '':'' \<in> lang False (Lit (js '':''))" by simp
  have "h @ js '':'' @ m @ js '':'' @ s @ [32] @ [p] @ [77] \<in> lang False timeRx1"
    unfolding timeRx1_def seq.simps
    by (intro lang_CatI 0 1 2 3 4 5 6)
  then show ?thesis by simp
qed

lemma date_token_iff:
  "d \<in> lang False dateRx \<longleftrightarrow>
     (\<exists>a b y. d = a @ js ''/'' @ b @ js ''/'' @ y \<and> numField a \<and> length a \<le> 2 \<and> numField b \<and> length b \<le> 2
              \<and> numField y \<and> length y = 2)"
  using lang_dateRx_D lang_dateRx_I by blast

lemma bracket_time_token_iff:
  "t \<in> lang False timeRx1 \<longleftrightarrow>
     (\<exists>h m s p. t = h @ js '':'' @ m @ js '':'' @ s @ [32, p, 77] \<and> numField h \<and> length h \<le> 2
           \<and> numField m \<and> length m = 2 \<and> numField s \<and> length s = 2 \<and> (p = 65 \<or> p = 80))"
  using lang_timeRx1_D lang_timeRx1_I by blast

lemma dash_time_token_iff:
  "t \<in> lang False timeRx2 \<longleftrightarrow>
     (\<exists>h m w p. t = h @ js '':'' @ m @ [w, p, 77] \<and> numField h \<and> length h \<le> 2 \<and> numField m \<and> length m = 2
               \<and> (isWs w \<or> w = 8239) \<and> (p = 65 \<or> p = 80))"
  using lang_timeRx2_D lang_timeRx2_I by blast

lemma rx_GrpCat_iff:
  assumes "plain a"
  shows "(c', r) \<in> set (rx False (Cat (Grp i a) b) c s) \<longleftrightarrow>
           (\<exists>w s'. w \<in> lang False a \<and> s = w @ s' \<and> (c', r) \<in> set (rx False b (c(i \<mapsto> w)) s'))"
  unfolding rx_Cat_iff rx_Grp_plain[OF assms] by blast

lemma rx_LitCat_iff:
  "(c', r) \<in> set (rx False (Cat (Lit l) b) c s) \<longleftrightarrow>
     (\<exists>s'. s = l @ s' \<and> (c', r) \<in> set (rx False b c s'))"
  unfolding rx_Cat_iff rx_Lit_iff by auto

lemma plain_parts [simp]: "plain dateRx" "plain timeRx1" "plain timeRx2"
  by (simp_all add: dateRx_def timeRx1_def timeRx2_def)

lemma plain_parts2 [simp]: "plain senderRx" "plain bodyRx" "plain restRx"
  by (simp_all add: senderRx_def bodyRx_def restRx_def)

lemma P2_results:
  "(c', r) \<in> set (rx False (body MESSAGE_START_PATTERN_2) c line) \<longleftrightarrow>
     (\<exists>d t sn b. line = d @ js '', '' @ t @ js '' - '' @ sn @ js '': '' @ b
        \<and> d \<in> lang False dateRx \<and> t \<in> lang False timeRx2 \<and> sn \<in> lang False senderRx \<and> b \<in> lang False bodyRx
        \<and> r = [] \<and> c' = c(1 \<mapsto> d, 2 \<mapsto> t, 3 \<mapsto> sn, 4 \<mapsto> b))"
proof -
  have b: "body MESSAGE_START_PATTERN_2 =
        Cat (Grp 1 dateRx) (Cat (Lit (js '', '')) (Cat (Grp 2 timeRx2) (Cat (Lit (js '' - ''))
          (Cat (Grp 3 senderRx) (Cat (Lit (js '': '')) (Cat (Grp 4 bodyRx) Eol))))))"
    by (simp add: MESSAGE_START_PATTERN_2_def senderRx_def bodyRx_def)
  show ?thesis
    unfolding b
    by (simp only: rx_GrpCat_iff rx_LitCat_iff rx_Eol_iff plain_parts plain_parts2) blast
qed

lemma P2SYS_results:
  "(c', r) \<in> set (rx False (body MESSAGE_START_PATTERN_2_SYSTEM) c line) \<longleftrightarrow>
     (\<exists>d t b. line = d @ js '', '' @ t @ js '' - '' @ b
        \<and> d \<in> lang False dateRx \<and> t \<in> lang False timeRx2 \<and> b \<in> lang False restRx
        \<and> r = [] \<and> c' = c(1 \<mapsto> d, 2 \<mapsto> t, 3 \<mapsto> b))"
proof -
  have b: "body MESSAGE_START_PATTERN_2_SYSTEM =
        Cat (Grp 1 dateRx) (Cat (Lit (js '', '')) (Cat (Grp 2 timeRx2) (Cat (Lit (js '' - ''))
          (Cat (Grp 3 restRx) Eol))))"
    by (simp add: MESSAGE_START_PATTERN_2_SYSTEM_def restRx_def)
  show ?thesis
    unfolding b
    by (simp only: rx_GrpCat_iff rx_LitCat_iff rx_Eol_iff plain_parts plain_parts2) blast
qed

lemma P1_results:
  "(c', r) \<in> set (rx False (body MESSAGE_START_PATTERN_1) c line) \<longleftrightarrow>
     (\<exists>d t sn b. line = js ''['' @ d @ js '', '' @ t @ js ''] '' @ sn @ js '': '' @ b
        \<and> d \<in> lang False dateRx \<and> t \<in> lang False timeRx1 \<and> sn \<in> lang False senderRx \<and> b \<in> lang False bodyRx
        \<and> r = [] \<and> c' = c(1 \<mapsto> d, 2 \<mapsto> t, 3 \<mapsto> sn, 4 \<mapsto> b))"
proof -
  have b: "body MESSAGE_START_PATTERN_1 =
        Cat (Lit (js ''['')) (Cat (Grp 1 dateRx) (Cat (Lit (js '', '')) (Cat (Grp 2 timeRx1) (Cat (Lit (js ''] ''))
          (Cat (Grp 3 senderRx) (Cat (Lit (js '': '')) (Cat (Grp 4 bodyRx) Eol)))))))"
    by (simp add: MESSAGE_START_PATTERN_1_def senderRx_def bodyRx_def)
  show ?thesis
    unfolding b
    by (simp only: rx_GrpCat_iff rx_LitCat_iff rx_Eol_iff plain_parts plain_parts2) blast
qed

lemma first_sep_unique:
  assumes "\<forall>x\<in>set u. P x" "\<forall>x\<in>set u'. P x" "\<not> P c" "\<not> P c'" "u @ c # r = u' @ c' # r'"
  shows "u = u' \<and> c = c' \<and> r = r'"
proof -
  have "takeWhile P (u @ c # r) = u" using assms(1,3) by (simp add: takeWhile_tail)
  moreover have "takeWhile P (u' @ c' # r') = u'" using assms(2,4) by (simp add: takeWhile_tail)
  ultimately have "u = u'" using assms(5) by simp
  then show ?thesis using assms(5) by simp
qed

lemma split_unique_elem:
  assumes "x \<notin> set u" "x \<notin> set v" "u @ x # v = u' @ x # v'"
  shows "u = u' \<and> v = v'"
  using assms
proof (induction u arbitrary: u')
  case Nil
  then show ?case by (cases u') auto
next
  case (Cons a u)
  then show ?case by (cases u') auto
qed

lemma date_chars:
  assumes "d \<in> lang False dateRx"
  shows "\<forall>x\<in>set d. isDigit x \<or> x = 47" and "d \<noteq> []" and "isDigit (hd d)"
proof -
  from lang_dateRx_D[OF assms] obtain a b y where
    d: "d = a @ js ''/'' @ b @ js ''/'' @ y" and f: "numField a" "numField b" "numField y" by blast
  show "\<forall>x\<in>set d. isDigit x \<or> x = 47"
    using f unfolding d by (auto simp: numField_def list_all_iff js_def)
  show "d \<noteq> []" using f(1) unfolding d by (simp add: numField_def)
  show "isDigit (hd d)" using f(1) unfolding d by (cases a) (auto simp: numField_def)
qed

lemma time2_shape:
  assumes "t \<in> lang False timeRx2"
  shows "\<exists>h m5. t = h @ 58 # m5 \<and> list_all isDigit h \<and> length m5 = 5"
proof -
  from lang_timeRx2_D[OF assms] obtain h m w p where
    "t = h @ js '':'' @ m @ [w, p, 77]" "numField h" "length m = 2" by blast
  then have "t = h @ 58 # (m @ [w, p, 77])" "list_all isDigit h" "length (m @ [w, p, 77]) = 5"
    by (simp_all add: js_def numField_def)
  then show ?thesis by blast
qed

lemma prefixB_unique:
  assumes "d \<in> lang False dateRx" "d' \<in> lang False dateRx"
    and "t \<in> lang False timeRx2" "t' \<in> lang False timeRx2"
    and "d @ js '', '' @ t @ X = d' @ js '', '' @ t' @ X'"
  shows "d = d' \<and> t = t' \<and> X = X'"
proof -
  have e: "d @ 44 # (32 # t @ X) = d' @ 44 # (32 # t' @ X')"
    using assms(5) by (simp add: js_def)
  have n: "\<not> (isDigit 44 \<or> (44::nat) = 47)" by (simp add: isDigit_def)
  from first_sep_unique[OF date_chars(1)[OF assms(1)] date_chars(1)[OF assms(2)] n n e]
  have dd: "d = d'" and tx: "t @ X = t' @ X'" by simp_all
  from time2_shape[OF assms(3)] obtain h m5 where t: "t = h @ 58 # m5" "list_all isDigit h" "length m5 = 5"
    by blast
  from time2_shape[OF assms(4)] obtain h' m5' where t': "t' = h' @ 58 # m5'" "list_all isDigit h'" "length m5' = 5"
    by blast
  have e2: "h @ 58 # (m5 @ X) = h' @ 58 # (m5' @ X')" using tx t(1) t'(1) by simp
  have n2: "\<not> isDigit 58" by (simp add: isDigit_def)
  have dh: "\<forall>x\<in>set h. isDigit x" "\<forall>x\<in>set h'. isDigit x"
    using t(2) t'(2) by (simp_all add: list_all_iff)
  from first_sep_unique[where P=isDigit, OF dh n2 n2 e2]
  have hh: "h = h'" and mx: "m5 @ X = m5' @ X'" by simp_all
  from mx t(3) t'(3) have "m5 = m5'" "X = X'" by simp_all
  then show ?thesis using dd hh t(1) t'(1) by simp
qed

lemma lang_senderRx: "sn \<in> lang False senderRx \<longleftrightarrow> sn \<noteq> [] \<and> (\<forall>x\<in>set sn. x \<noteq> 58)"
  by (cases sn) (auto simp: senderRx_def js_def)

lemma lang_bodyRx: "b \<in> lang False bodyRx \<longleftrightarrow> (\<forall>x\<in>set b. \<not> isLineTerminator x)"
  by (auto simp: bodyRx_def)

lemma lang_restRx: "b \<in> lang False restRx \<longleftrightarrow> b \<noteq> [] \<and> (\<forall>x\<in>set b. \<not> isLineTerminator x)"
  by (cases b) (auto simp: restRx_def)

lemma matchAt_SomeD:
  "matchAt p s = Some m \<Longrightarrow> \<exists>r. (m, r) \<in> set (rx (ignoreCase p) (body p) Map.empty s)"
  by (auto simp: matchAt_def split: list.splits)

lemma matchAt_None_iff: "matchAt p s = None \<longleftrightarrow> rx (ignoreCase p) (body p) Map.empty s = []"
  by (auto simp: matchAt_def split: list.splits)

lemma matchAt_unique:
  assumes "(m, r) \<in> set (rx (ignoreCase p) (body p) Map.empty s)"
    and "\<And>m' r'. (m', r') \<in> set (rx (ignoreCase p) (body p) Map.empty s) \<Longrightarrow> m' = m"
  shows "matchAt p s = Some m"
proof (cases "rx (ignoreCase p) (body p) Map.empty s")
  case Nil
  then show ?thesis using assms(1) by simp
next
  case (Cons x xs)
  obtain m' r' where x: "x = (m', r')" by (cases x)
  have "(m', r') \<in> set (rx (ignoreCase p) (body p) Map.empty s)" using Cons x by simp
  then have "m' = m" by (rule assms(2))
  then show ?thesis using Cons x by (simp add: matchAt_def)
qed

lemma flags [simp]:
  "anchored MESSAGE_START_PATTERN_1" "\<not> ignoreCase MESSAGE_START_PATTERN_1"
  "anchored MESSAGE_START_PATTERN_2" "\<not> ignoreCase MESSAGE_START_PATTERN_2"
  "anchored MESSAGE_START_PATTERN_2_SYSTEM" "\<not> ignoreCase MESSAGE_START_PATTERN_2_SYSTEM"
  by (simp_all add: MESSAGE_START_PATTERN_1_def MESSAGE_START_PATTERN_2_def MESSAGE_START_PATTERN_2_SYSTEM_def)

lemma icase:
  "ignoreCase MESSAGE_START_PATTERN_1 = False"
  "ignoreCase MESSAGE_START_PATTERN_2 = False"
  "ignoreCase MESSAGE_START_PATTERN_2_SYSTEM = False"
  by simp_all

lemma exec_P1_D:
  assumes "exec MESSAGE_START_PATTERN_1 line = Some m"
  shows "\<exists>d t sn b. line = js ''['' @ d @ js '', '' @ t @ js ''] '' @ sn @ js '': '' @ b
        \<and> d \<in> lang False dateRx \<and> t \<in> lang False timeRx1 \<and> sn \<in> lang False senderRx \<and> b \<in> lang False bodyRx
        \<and> m = [1 \<mapsto> d, 2 \<mapsto> t, 3 \<mapsto> sn, 4 \<mapsto> b]"
proof -
  from assms have "matchAt MESSAGE_START_PATTERN_1 line = Some m" by (simp add: exec_def)
  from matchAt_SomeD[OF this, unfolded icase] obtain r where
    "(m, r) \<in> set (rx False (body MESSAGE_START_PATTERN_1) Map.empty line)" by blast
  then show ?thesis unfolding P1_results by blast
qed

lemma exec_P2_iff:
  "exec MESSAGE_START_PATTERN_2 line = Some m \<longleftrightarrow>
     (\<exists>d t sn b. line = d @ js '', '' @ t @ js '' - '' @ sn @ js '': '' @ b
        \<and> d \<in> lang False dateRx \<and> t \<in> lang False timeRx2 \<and> sn \<in> lang False senderRx \<and> b \<in> lang False bodyRx
        \<and> m = [1 \<mapsto> d, 2 \<mapsto> t, 3 \<mapsto> sn, 4 \<mapsto> b])"
  (is "?L \<longleftrightarrow> ?R")
proof
  assume ?L
  then have "matchAt MESSAGE_START_PATTERN_2 line = Some m" by (simp add: exec_def)
  from matchAt_SomeD[OF this, unfolded icase] obtain r where
    "(m, r) \<in> set (rx False (body MESSAGE_START_PATTERN_2) Map.empty line)" by blast
  then show ?R unfolding P2_results by blast
next
  assume ?R
  then obtain d t sn b where l: "line = d @ js '', '' @ t @ js '' - '' @ sn @ js '': '' @ b"
    and f: "d \<in> lang False dateRx" "t \<in> lang False timeRx2" "sn \<in> lang False senderRx" "b \<in> lang False bodyRx"
    and m: "m = [1 \<mapsto> d, 2 \<mapsto> t, 3 \<mapsto> sn, 4 \<mapsto> b]" by blast
  have in_set: "(m, []) \<in> set (rx (ignoreCase MESSAGE_START_PATTERN_2) (body MESSAGE_START_PATTERN_2) Map.empty line)"
    unfolding icase P2_results using l f m
    by (intro exI[of _ d] exI[of _ t] exI[of _ sn] exI[of _ b]) simp
  have uniq: "m' = m" if "(m', r') \<in> set (rx (ignoreCase MESSAGE_START_PATTERN_2) (body MESSAGE_START_PATTERN_2) Map.empty line)"
    for m' r'
  proof -
    from that[unfolded icase P2_results]
    obtain d' t' sn' b' where l': "line = d' @ js '', '' @ t' @ js '' - '' @ sn' @ js '': '' @ b'"
      and f': "d' \<in> lang False dateRx" "t' \<in> lang False timeRx2" "sn' \<in> lang False senderRx" "b' \<in> lang False bodyRx"
      and m': "m' = [1 \<mapsto> d', 2 \<mapsto> t', 3 \<mapsto> sn', 4 \<mapsto> b']"
      by blast
    have eq: "d @ js '', '' @ t @ (js '' - '' @ sn @ js '': '' @ b) = d' @ js '', '' @ t' @ (js '' - '' @ sn' @ js '': '' @ b')"
      using l l' by simp
    from prefixB_unique[OF f(1) f'(1) f(2) f'(2) eq]
    have dd: "d = d'" "t = t'" and rest: "js '' - '' @ sn @ js '': '' @ b = js '' - '' @ sn' @ js '': '' @ b'"
      by simp_all
    have e: "sn @ 58 # (32 # b) = sn' @ 58 # (32 # b')" using rest by (simp add: js_def)
    have "sn = sn' \<and> (58::nat) = 58 \<and> 32 # b = 32 # b'"
      using f(3) f'(3) by (intro first_sep_unique[where P="\<lambda>x. x \<noteq> 58", OF _ _ _ _ e]) (auto simp: lang_senderRx)
    then show ?thesis using dd m m' by simp
  qed
  have "matchAt MESSAGE_START_PATTERN_2 line = Some m"
    using in_set uniq by (rule matchAt_unique)
  then show ?L by (simp add: exec_def)
qed

lemma exec_P2SYS_iff:
  "exec MESSAGE_START_PATTERN_2_SYSTEM line = Some m \<longleftrightarrow>
     (\<exists>d t b. line = d @ js '', '' @ t @ js '' - '' @ b
        \<and> d \<in> lang False dateRx \<and> t \<in> lang False timeRx2 \<and> b \<in> lang False restRx
        \<and> m = [1 \<mapsto> d, 2 \<mapsto> t, 3 \<mapsto> b])"
  (is "?L \<longleftrightarrow> ?R")
proof
  assume ?L
  then have "matchAt MESSAGE_START_PATTERN_2_SYSTEM line = Some m" by (simp add: exec_def)
  from matchAt_SomeD[OF this, unfolded icase] obtain r where
    "(m, r) \<in> set (rx False (body MESSAGE_START_PATTERN_2_SYSTEM) Map.empty line)" by blast
  then show ?R unfolding P2SYS_results by blast
next
  assume ?R
  then obtain d t b where l: "line = d @ js '', '' @ t @ js '' - '' @ b"
    and f: "d \<in> lang False dateRx" "t \<in> lang False timeRx2" "b \<in> lang False restRx"
    and m: "m = [1 \<mapsto> d, 2 \<mapsto> t, 3 \<mapsto> b]" by blast
  have in_set: "(m, []) \<in> set (rx (ignoreCase MESSAGE_START_PATTERN_2_SYSTEM) (body MESSAGE_START_PATTERN_2_SYSTEM) Map.empty line)"
    unfolding icase P2SYS_results using l f m
    by (intro exI[of _ d] exI[of _ t] exI[of _ b]) simp
  have uniq: "m' = m" if "(m', r') \<in> set (rx (ignoreCase MESSAGE_START_PATTERN_2_SYSTEM) (body MESSAGE_START_PATTERN_2_SYSTEM) Map.empty line)"
    for m' r'
  proof -
    from that[unfolded icase P2SYS_results]
    obtain d' t' b' where l': "line = d' @ js '', '' @ t' @ js '' - '' @ b'"
      and f': "d' \<in> lang False dateRx" "t' \<in> lang False timeRx2" "b' \<in> lang False restRx"
      and m': "m' = [1 \<mapsto> d', 2 \<mapsto> t', 3 \<mapsto> b']"
      by blast
    have eq: "d @ js '', '' @ t @ (js '' - '' @ b) = d' @ js '', '' @ t' @ (js '' - '' @ b')"
      using l l' by simp
    from prefixB_unique[OF f(1) f'(1) f(2) f'(2) eq]
    have "d = d'" "t = t'" "js '' - '' @ b = js '' - '' @ b'"
      by simp_all
    then show ?thesis using m m' by simp
  qed
  have "matchAt MESSAGE_START_PATTERN_2_SYSTEM line = Some m"
    using in_set uniq by (rule matchAt_unique)
  then show ?L by (simp add: exec_def)
qed

section \<open>The normalizer on matched tokens\<close>

lemma parseDateTime_ok:
  assumes "numField a" "numField b" "numField y"
    and "numField h \<and> length h \<le> 15" and "numField m \<and> length m \<le> 15"
    and "case secs of None \<Rightarrow> True | Some s \<Rightarrow> numField s \<and> length s \<le> 15"
    and "isWs sep \<or> sep = 8239"
    and "marker = js ''AM'' \<or> marker = js ''PM''"
  shows "\<exists>ts. parseDateTime (a @ js ''/'' @ b @ js ''/'' @ y) (clockOf h m secs @ [sep] @ marker) f = Inr ts"
proof -
  have parts: "split 47 (a @ js ''/'' @ b @ js ''/'' @ y) = [a, b, y]"
    using assms(1-3) by (simp add: split_date_token numField_no_slash)
  have fh: "numField h" and fm: "numField m" using assms(4,5) by simp_all
  have s3: "case secs of None \<Rightarrow> True | Some s \<Rightarrow> numField s"
    using assms(6) by (cases secs) auto
  have pieces: "splitWhere (\<lambda>c. isWs c \<or> c = 8239) (clockOf h m secs @ [sep] @ marker) = [clockOf h m secs, marker]"
    using fh fm s3 assms(7,8) by (rule split_time_token)
  then have pieces': "splitWhere (\<lambda>c. isWs c \<or> c = 8239) (clockOf h m secs @ sep # marker) = [clockOf h m secs, marker]"
    by simp
  have nh: "Number h = Some (decimalValue h)" and nm: "Number m = Some (decimalValue m)"
    using assms(4,5) by (simp_all add: numField_def Number_digits)
  have tparts: "split 58 (clockOf h m secs) = (case secs of None \<Rightarrow> [h, m] | Some s \<Rightarrow> [h, m, s])"
    using fh fm s3 by (rule split_clock)
  have nums: "map Number (split 58 (clockOf h m secs))
                = Some (decimalValue h) # Some (decimalValue m) # (case secs of None \<Rightarrow> [] | Some s \<Rightarrow> [Some (decimalValue s)])"
    unfolding tparts using assms(6) nh nm by (cases secs) (simp_all add: numField_def Number_digits)
  have sec: "(case nth_opt (Some (decimalValue h) # Some (decimalValue m) # (case secs of None \<Rightarrow> [] | Some s \<Rightarrow> [Some (decimalValue s)])) 2
               of None \<Rightarrow> Some 0 | Some v \<Rightarrow> v)
               = Some (case secs of None \<Rightarrow> 0 | Some s \<Rightarrow> decimalValue s)"
    by (cases secs) (simp_all add: nth_opt_def)
  show ?thesis
    by (simp add: parseDateTime_def Let_def parts pieces' nums sec nth_opt_Cons0 nth_opt_Cons1 nth_opt_Cons2)
qed

lemma marker_cases: "p = 65 \<or> p = 80 \<Longrightarrow> [p, 77] = js ''AM'' \<or> [p, 77] = js ''PM''"
  by (auto simp: js_def)

lemma parseDateTime_tokens_ok:
  assumes "d \<in> lang False dateRx" and "t \<in> lang False timeRx1 \<or> t \<in> lang False timeRx2"
  shows "\<exists>ts. parseDateTime d t f = Inr ts"
proof -
  from lang_dateRx_D[OF assms(1)] obtain a b y where
    d: "d = a @ js ''/'' @ b @ js ''/'' @ y" and fd: "numField a" "numField b" "numField y" by blast
  from assms(2) show ?thesis
  proof
    assume "t \<in> lang False timeRx1"
    from lang_timeRx1_D[OF this] obtain h m s p where
      t: "t = h @ js '':'' @ m @ js '':'' @ s @ [32, p, 77]" and
      ft: "numField h" "length h \<le> 2" "numField m" "length m = 2" "numField s" "length s = 2" "p = 65 \<or> p = 80"
      by blast
    have t': "t = clockOf h m (Some s) @ [32] @ [p, 77]" unfolding t by (simp add: clockOf_def)
    have "isWs 32 \<or> (32::nat) = 8239" by (simp add: isWs_def)
    with fd ft marker_cases[OF ft(7)] show ?thesis unfolding d t'
      by (intro parseDateTime_ok) simp_all
  next
    assume "t \<in> lang False timeRx2"
    from lang_timeRx2_D[OF this] obtain h m w p where
      t: "t = h @ js '':'' @ m @ [w, p, 77]" and
      ft: "numField h" "length h \<le> 2" "numField m" "length m = 2" "isWs w \<or> w = 8239" "p = 65 \<or> p = 80"
      by blast
    have t': "t = clockOf h m None @ [w] @ [p, 77]" unfolding t by (simp add: clockOf_def)
    from fd ft marker_cases[OF ft(6)] show ?thesis unfolding d t'
      by (intro parseDateTime_ok) simp_all
  qed
qed

lemma tryPatterns_cases:
  assumes "tryPatterns line = (Some m, sys, fmt)"
  shows "(exec MESSAGE_START_PATTERN_1 line = Some m \<and> \<not> sys \<and> fmt = 1)
       \<or> (exec MESSAGE_START_PATTERN_1 line = None \<and> exec MESSAGE_START_PATTERN_2 line = Some m \<and> \<not> sys \<and> fmt = 2)
       \<or> (exec MESSAGE_START_PATTERN_1 line = None \<and> exec MESSAGE_START_PATTERN_2 line = None
            \<and> exec MESSAGE_START_PATTERN_2_SYSTEM line = Some m \<and> sys \<and> fmt = 2)"
  using assms by (auto simp: tryPatterns_def split: option.splits)

lemma start_tokens:
  assumes "tryPatterns line = (Some m, sys, fmt)"
  shows "\<exists>d t. m 1 = Some d \<and> m 2 = Some t \<and> d \<in> lang False dateRx
           \<and> (t \<in> lang False timeRx1 \<or> t \<in> lang False timeRx2)
           \<and> m 3 \<noteq> None \<and> (\<not> sys \<longrightarrow> m 4 \<noteq> None)"
proof -
  from tryPatterns_cases[OF assms]
  consider (a) "exec MESSAGE_START_PATTERN_1 line = Some m" "\<not> sys"
    | (b) "exec MESSAGE_START_PATTERN_2 line = Some m" "\<not> sys"
    | (c) "exec MESSAGE_START_PATTERN_2_SYSTEM line = Some m" "sys" by blast
  then show ?thesis
  proof cases
    case a
    from exec_P1_D[OF a(1)] obtain d t sn b where
      "d \<in> lang False dateRx" "t \<in> lang False timeRx1" "m = [1 \<mapsto> d, 2 \<mapsto> t, 3 \<mapsto> sn, 4 \<mapsto> b]" by blast
    then show ?thesis by simp
  next
    case b
    from b(1)[unfolded exec_P2_iff] obtain d t sn b where
      "d \<in> lang False dateRx" "t \<in> lang False timeRx2" "m = [1 \<mapsto> d, 2 \<mapsto> t, 3 \<mapsto> sn, 4 \<mapsto> b]" by blast
    then show ?thesis by simp
  next
    case c
    from c(1)[unfolded exec_P2SYS_iff] obtain d t b where
      "d \<in> lang False dateRx" "t \<in> lang False timeRx2" "m = [1 \<mapsto> d, 2 \<mapsto> t, 3 \<mapsto> b]" by blast
    then show ?thesis using c(2) by simp
  qed
qed





text \<open>
  Where a piece is missing the code does fail, with the \<^verbatim>\<open>TypeError\<close> of a method
  called on \<^verbatim>\<open>undefined\<close>: a date token with no slash, a time token with no colon.
\<close>

lemma missing_piece_throws:
  "parseDateTime (js ''13'') (js ''11:52 AM'') 1 = Inl TypeError"
  "parseDateTime (js ''13/01/25'') (js ''1152 AM'') 1 = Inl TypeError"
  by (simp_all add: evals)

section \<open>The parser never fails\<close>

lemma rx_groups:
  "(c', r) \<in> set (rx ci re c s) \<Longrightarrow> dom c \<union> groupsOf re \<subseteq> dom c'"
proof (induction re arbitrary: c s c' r)
  case (Lit l)
  then show ?case by (auto split: if_splits)
next
  case (Cls k)
  then show ?case by (auto split: list.splits if_splits)
next
  case (Rep k lo hi g)
  then show ?case by (auto simp: Let_def split: if_splits)
next
  case (Cat a b)
  from Cat.prems obtain c1 r1 where 1: "(c1, r1) \<in> set (rx ci a c s)" and 2: "(c', r) \<in> set (rx ci b c1 r1)"
    unfolding rx_Cat_iff by blast
  from Cat.IH(1)[OF 1] Cat.IH(2)[OF 2] have "dom c \<union> (groupsOf a \<union> groupsOf b) \<subseteq> dom c'"
    by blast
  then show ?case by simp
next
  case (Alt a b)
  from Alt.prems have "(c', r) \<in> set (rx ci a c s) \<or> (c', r) \<in> set (rx ci b c s)"
    unfolding rx_Alt_iff .
  then show ?case using Alt.IH(1)[of c' r c s] Alt.IH(2)[of c' r c s] by auto
next
  case (Grp i a)
  from Grp.prems obtain c1 where 1: "(c1, r) \<in> set (rx ci a c s)"
    and 2: "c' = c1(i \<mapsto> take (length s - length r) s)"
    unfolding rx_Grp_iff by blast
  from Grp.IH[OF 1] 2 show ?case by auto
next
  case Eol
  then show ?case by (auto split: if_splits)
qed

lemma search_SomeD: "search p s = Some m \<Longrightarrow> \<exists>t. matchAt p t = Some m"
  by (induction s) (auto split: option.splits)

lemma exec_groups:
  assumes "exec p s = Some m"
  shows "groupsOf (body p) \<subseteq> dom m"
proof -
  from assms obtain t where "matchAt p t = Some m"
    by (auto simp: exec_def dest: search_SomeD split: if_splits)
  from matchAt_SomeD[OF this] obtain r where "(m, r) \<in> set (rx (ignoreCase p) (body p) Map.empty t)"
    by blast
  from rx_groups[OF this] show ?thesis by simp
qed

lemma groups_alts_Lit: "groupsOf (alts (map (\<lambda>w. Lit (f w)) ws)) = {}"
proof (induction ws)
  case Nil
  then show ?case by simp
next
  case (Cons w ws)
  then show ?case by (cases ws) auto
qed

lemma attached_group:
  assumes "exec MEDIA_ATTACHED_PATTERN s = Some m"
  shows "m 1 \<noteq> None"
proof -
  have "(1::nat) \<in> groupsOf (body MEDIA_ATTACHED_PATTERN)"
    by (simp add: MEDIA_ATTACHED_PATTERN_def)
  with exec_groups[OF assms] show ?thesis by blast
qed

lemma attached2_groups:
  assumes "exec MEDIA_ATTACHED_PATTERN_2 s = Some m"
  shows "m 1 \<noteq> None \<and> m 2 \<noteq> None"
proof -
  have "{1::nat, 2} \<subseteq> groupsOf (body MEDIA_ATTACHED_PATTERN_2)"
    by (simp add: MEDIA_ATTACHED_PATTERN_2_def)
  with exec_groups[OF assms] show ?thesis by blast
qed

lemma analyzeMessage_total: "\<exists>a. analyzeMessage s = Inr a"
proof (cases "exec MEDIA_ATTACHED_PATTERN s")
  case (Some m)
  with attached_group[OF Some] show ?thesis
    by (auto simp: analyzeMessage_def Let_def)
next
  case None
  show ?thesis
  proof (cases "exec MEDIA_ATTACHED_PATTERN_2 s")
    case (Some m)
    with attached2_groups[OF Some] None show ?thesis
      by (auto simp: analyzeMessage_def)
  next
    case n2: None
    with None show ?thesis by (simp add: analyzeMessage_def)
  qed
qed

lemma newMessage_ok:
  assumes "tryPatterns line = (Some m, sys, fmt)"
  shows "\<exists>msg. newMessage m sys fmt n = Inr msg \<and> msgId msg = js ''msg_'' @ showNat n"
proof -
  from start_tokens[OF assms] obtain d t where
    g: "m 1 = Some d" "m 2 = Some t" "d \<in> lang False dateRx" "t \<in> lang False timeRx1 \<or> t \<in> lang False timeRx2"
       "m 3 \<noteq> None" "\<not> sys \<longrightarrow> m 4 \<noteq> None"
    by blast
  from parseDateTime_tokens_ok[OF g(3,4)] obtain ts where ts: "parseDateTime d t fmt = Inr ts" by blast
  show ?thesis
  proof (cases sys)
    case True
    with g ts show ?thesis by (auto simp: newMessage_def)
  next
    case False
    with g obtain sn b where "m 3 = Some sn" "m 4 = Some b" by auto
    moreover obtain a where "analyzeMessage b = Inr a" using analyzeMessage_total by blast
    ultimately show ?thesis using False g ts by (auto simp: newMessage_def)
  qed
qed

section \<open>The loop of the assembler\<close>

lemma isPrefixOf_iff: "isPrefixOf p s \<longleftrightarrow> (\<exists>r. s = p @ r)"
  by (induction p s rule: isPrefixOf.induct) auto

lemma step_blank: "cleanLine l = [] \<Longrightarrow> step st l = Inr st"
  by (simp add: step_def)

lemma step_start:
  assumes "isStartLine l"
  shows "\<exists>msg. opened l (messageId st + 1) = Some msg \<and> msgId msg = js ''msg_'' @ showNat (messageId st + 1)
           \<and> step st l = Inr \<lparr>messages = flush st, currentMessage = Some msg, messageId = messageId st + 1\<rparr>"
proof -
  from assms obtain m sys fmt where t: "tryPatterns (cleanLine l) = (Some m, sys, fmt)" and ne: "cleanLine l \<noteq> []"
    unfolding isStartLine_def by (cases "tryPatterns (cleanLine l)") auto
  from newMessage_ok[OF t, of "messageId st + 1"] obtain msg where
    "newMessage m sys fmt (messageId st + 1) = Inr msg" "msgId msg = js ''msg_'' @ showNat (messageId st + 1)"
    by blast
  then show ?thesis using t ne by (simp add: opened_def step_def Let_def)
qed

lemma step_cont:
  assumes "\<not> isStartLine l"
  shows "step st l = Inr (case currentMessage st of
                            None \<Rightarrow> st
                          | Some cm \<Rightarrow> st\<lparr>currentMessage := Some (cm\<lparr>content := content cm @ joined [l]\<rparr>)\<rparr>)"
proof (cases "cleanLine l = []")
  case True
  then show ?thesis by (cases "currentMessage st") (simp_all add: step_def joined_def)
next
  case False
  with assms obtain sys fmt where "tryPatterns (cleanLine l) = (None, sys, fmt)"
    unfolding isStartLine_def by (cases "tryPatterns (cleanLine l)") auto
  with False show ?thesis
    by (cases "currentMessage st") (simp_all add: step_def joined_def Let_def)
qed

lemma run_append:
  "run st (xs @ ys) = (case run st xs of Inl e \<Rightarrow> Inl e | Inr st' \<Rightarrow> run st' ys)"
  by (induction xs arbitrary: st) (auto split: sum.splits)

lemma joined_Cons: "joined (l # ls) = joined [l] @ joined ls"
  by (simp add: joined_def)

lemma run_conts:
  assumes "\<forall>l\<in>set ls. \<not> isStartLine l"
  shows "run st ls = Inr (case currentMessage st of
                            None \<Rightarrow> st
                          | Some cm \<Rightarrow> st\<lparr>currentMessage := Some (cm\<lparr>content := content cm @ joined ls\<rparr>)\<rparr>)"
  using assms
proof (induction ls arbitrary: st)
  case Nil
  then show ?case by (cases "currentMessage st") (simp_all add: joined_def)
next
  case (Cons l ls)
  then have l: "\<not> isStartLine l" and ls: "\<forall>l\<in>set ls. \<not> isStartLine l" by simp_all
  show ?case
    unfolding run.simps step_cont[OF l] sum.case Cons.IH[OF ls] joined_Cons[of l ls]
    by (cases "currentMessage st") simp_all
qed

lemma run_frozen:
  "run st ls = Inr st' \<Longrightarrow> \<exists>ext. messages st' = messages st @ ext"
proof (induction ls arbitrary: st)
  case Nil
  then show ?case by simp
next
  case (Cons l ls)
  from Cons.prems obtain st1 where 1: "step st l = Inr st1" and 2: "run st1 ls = Inr st'"
    by (auto split: sum.splits)
  have "\<exists>e. messages st1 = messages st @ e"
  proof (cases "isStartLine l")
    case True
    from step_start[OF True, of st] 1 show ?thesis
      by (cases "currentMessage st") (auto simp: flush_def)
  next
    case False
    from step_cont[OF False, of st] 1 show ?thesis
      by (cases "currentMessage st") auto
  qed
  with Cons.IH[OF 2] show ?case by auto
qed

lemma opened_msgId:
  assumes "opened l n = Some m0"
  shows "msgId m0 = js ''msg_'' @ showNat n"
proof -
  from assms obtain m sys fmt where t: "tryPatterns (cleanLine l) = (Some m, sys, fmt)"
    and n: "newMessage m sys fmt n = Inr m0"
    by (auto simp: opened_def split: prod.splits option.splits sum.splits)
  from newMessage_ok[OF t, of n] n show ?thesis by auto
qed

lemma recordOf_opened: "opened l n = Some msg \<Longrightarrow> recordOf l n msg"
  by (simp add: recordOf_def isPrefixOf_iff)

lemma recordOf_extend:
  assumes "recordOf l n cm"
  shows "recordOf l n (cm\<lparr>content := content cm @ x\<rparr>)"
proof -
  from assms obtain m0 where o: "opened l n = Some m0" and e: "cm = m0\<lparr>content := content cm\<rparr>"
    and p: "isPrefixOf (content m0) (content cm)"
    by (auto simp: recordOf_def split: option.splits)
  have "cm\<lparr>content := content cm @ x\<rparr> = m0\<lparr>content := content cm @ x\<rparr>"
    by (subst e) simp
  moreover have "isPrefixOf (content m0) (content cm @ x)"
    using p unfolding isPrefixOf_iff by auto
  ultimately show ?thesis using o by (simp add: recordOf_def)
qed

lemma recordOf_msgId: "recordOf l n msg \<Longrightarrow> msgId msg = js ''msg_'' @ showNat n"
proof -
  assume "recordOf l n msg"
  then obtain m0 where o: "opened l n = Some m0" and e: "msg = m0\<lparr>content := content msg\<rparr>"
    by (auto simp: recordOf_def split: option.splits)
  have "msgId msg = msgId (m0\<lparr>content := content msg\<rparr>)" by (subst e) simp
  then show ?thesis using opened_msgId[OF o] by simp
qed

lemma tracks_step:
  assumes "tracks st seen"
  shows "\<exists>st'. step st l = Inr st' \<and> tracks st' (seen @ [l])"
proof (cases "isStartLine l")
  case True
  from step_start[OF True, of st] obtain msg where
    o: "opened l (messageId st + 1) = Some msg"
    and s: "step st l = Inr \<lparr>messages = flush st, currentMessage = Some msg, messageId = messageId st + 1\<rparr>"
    by blast
  let ?st' = "\<lparr>messages = flush st, currentMessage = Some msg, messageId = messageId st + 1\<rparr>"
  let ?n = "messageId st"
  from assms have len: "length (flush st) = ?n" and ls: "length (filter isStartLine seen) = ?n"
    and rec: "\<forall>i<?n. recordOf (filter isStartLine seen ! i) (i + 1) (flush st ! i)"
    by (simp_all add: tracks_def)
  have f': "flush ?st' = flush st @ [msg]" by (simp add: flush_def)
  have s': "filter isStartLine (seen @ [l]) = filter isStartLine seen @ [l]" using True by simp
  have "recordOf (filter isStartLine (seen @ [l]) ! i) (i + 1) (flush ?st' ! i)" if "i < ?n + 1" for i
  proof (cases "i < ?n")
    case True
    then show ?thesis using rec len ls unfolding f' s' by (simp add: nth_append)
  next
    case False
    with that have "i = ?n" by simp
    then show ?thesis using len ls recordOf_opened[OF o] unfolding f' s' by (simp add: nth_append)
  qed
  then have "tracks ?st' (seen @ [l])"
    using len ls unfolding tracks_def f' s' by simp
  with s show ?thesis by blast
next
  case False
  let ?n = "messageId st"
  from assms have len: "length (flush st) = ?n" and ls: "length (filter isStartLine seen) = ?n"
    and rec: "\<forall>i<?n. recordOf (filter isStartLine seen ! i) (i + 1) (flush st ! i)"
    by (simp_all add: tracks_def)
  have s': "filter isStartLine (seen @ [l]) = filter isStartLine seen" using False by simp
  show ?thesis
  proof (cases "currentMessage st")
    case None
    with step_cont[OF False, of st] assms False show ?thesis by (simp add: tracks_def)
  next
    case (Some cm)
    let ?cm' = "cm\<lparr>content := content cm @ joined [l]\<rparr>"
    let ?st' = "st\<lparr>currentMessage := Some ?cm'\<rparr>"
    have s: "step st l = Inr ?st'" using step_cont[OF False, of st] Some by simp
    have f: "flush st = messages st @ [cm]" using Some by (simp add: flush_def)
    have f': "flush ?st' = messages st @ [?cm']" by (simp add: flush_def)
    have n: "?n = length (messages st) + 1" using len f by simp
    have "recordOf (filter isStartLine seen ! i) (i + 1) (flush ?st' ! i)" if "i < ?n" for i
    proof (cases "i < length (messages st)")
      case True
      then show ?thesis using rec that unfolding f f' by (auto simp: nth_append)
    next
      case False
      with that n have i: "i = length (messages st)" by simp
      from rec that have "recordOf (filter isStartLine seen ! i) (i + 1) (flush st ! i)" by blast
      then have "recordOf (filter isStartLine seen ! i) (i + 1) cm" unfolding f i by simp
      from recordOf_extend[OF this] show ?thesis unfolding f' i by simp
    qed
    then have "tracks ?st' (seen @ [l])"
      using len ls f False unfolding tracks_def f' by simp
    with s show ?thesis by blast
  qed
qed

lemma tracks_run:
  assumes "tracks st seen"
  shows "\<exists>st'. run st ls = Inr st' \<and> tracks st' (seen @ ls)"
  using assms
proof (induction ls arbitrary: st seen)
  case Nil
  then show ?case by simp
next
  case (Cons l ls)
  from tracks_step[OF Cons.prems, of l] obtain st1 where 1: "step st l = Inr st1" and 2: "tracks st1 (seen @ [l])"
    by blast
  from Cons.IH[OF 2] obtain st' where "run st1 ls = Inr st'" "tracks st' ((seen @ [l]) @ ls)" by blast
  with 1 show ?case by simp
qed

lemma tracks_init: "tracks \<lparr>messages = [], currentMessage = None, messageId = 0\<rparr> []"
  by (simp add: tracks_def flush_def)

lemma tracks_msgId:
  assumes "tracks st seen" "i < messageId st"
  shows "msgId (flush st ! i) = js ''msg_'' @ showNat (i + 1)"
  using assms recordOf_msgId unfolding tracks_def by blast

lemma flush_nth_frozen:
  assumes "messages st' = old @ ext" "i < length old"
  shows "flush st' ! i = old ! i"
  using assms by (cases "currentMessage st'") (simp_all add: flush_def nth_append)

text \<open>A transcript of four lines, evaluated: a start line, two continuation lines, a start line.\<close>

lemma w_lines:
  "split 10 (replaceCrLf (js ''[13/01/25, 11:52:46 AM] Alice: Hello'' @ [13, 10] @ js ''there'' @ [10] @ js '' friend''
       @ [10] @ js ''[13/01/25, 11:53:00 AM] Bob: <attached: pic.jpg>''))
   = [] @ [js ''[13/01/25, 11:52:46 AM] Alice: Hello''] @ [js ''there'', js '' friend'']
     @ [js ''[13/01/25, 11:53:00 AM] Bob: <attached: pic.jpg>'']"
  by (simp add: evals)

lemma w_start1: "isStartLine (js ''[13/01/25, 11:52:46 AM] Alice: Hello'')"
  by (simp add: rx_evals evals)

lemma w_start2: "isStartLine (js ''[13/01/25, 11:53:00 AM] Bob: <attached: pic.jpg>'')"
  by (simp add: rx_evals evals)

lemma w_conts: "\<forall>c\<in>set [js ''there'', js '' friend'']. \<not> isStartLine c"
  by (simp add: rx_evals evals)

lemma w_joined: "joined [js ''there'', js '' friend''] = [10] @ js ''there'' @ [10] @ js ''friend''"
  by (simp add: joined_def cleanLine_def evals)

section \<open>Identifiers and order\<close>

text \<open>
  C6. Parsing any transcript returns a sequence of records that has one record for each
  start line of the transcript, in the order of the start lines: the record at position
  \<open>i\<close> (from 0) has the identifier \<^verbatim>\<open>msg_\<close> followed by \<open>i + 1\<close> and is the record
  opened by the start line number \<open>i\<close>, with its continuation lines appended. So the
  identifiers count from 1 without a gap and no record is moved.
\<close>

theorem ids_and_order:
  "\<exists>ms. parseChatFile fileText = Inr ms
     \<and> (let starts = filter isStartLine (split 10 (replaceCrLf fileText)) in
          length ms = length starts
          \<and> (\<forall>i<length ms. msgId (ms ! i) = js ''msg_'' @ showNat (i + 1)
                             \<and> recordOf (starts ! i) (i + 1) (ms ! i)))"
proof -
  let ?lines = "split 10 (replaceCrLf fileText)"
  from tracks_run[OF tracks_init, of ?lines] obtain st where
    r: "run \<lparr>messages = [], currentMessage = None, messageId = 0\<rparr> ?lines = Inr st" and t: "tracks st ?lines"
    by auto
  have p: "parseChatFile fileText = Inr (flush st)"
    using r by (simp add: parseChatFile_def parseLines_def)
  from t have "length (flush st) = length (filter isStartLine ?lines)"
    and "\<forall>i<length (flush st). recordOf (filter isStartLine ?lines ! i) (i + 1) (flush st ! i)"
    by (simp_all add: tracks_def)
  then show ?thesis using p recordOf_msgId by (auto simp: Let_def)
qed

theorem ids_and_order_witness:
  "\<exists>ms. parseChatFile (js ''[13/01/25, 11:52:46 AM] Alice: Hello'' @ [13, 10] @ js ''there'' @ [10] @ js '' friend''
       @ [10] @ js ''[13/01/25, 11:53:00 AM] Bob: <attached: pic.jpg>'') = Inr ms \<and> length ms = 2
     \<and> msgId (ms ! 0) = js ''msg_1'' \<and> msgId (ms ! 1) = js ''msg_2''
     \<and> recordOf (js ''[13/01/25, 11:52:46 AM] Alice: Hello'') 1 (ms ! 0) \<and> recordOf (js ''[13/01/25, 11:53:00 AM] Bob: <attached: pic.jpg>'') 2 (ms ! 1)"
proof -
  have f: "filter isStartLine (split 10 (replaceCrLf (js ''[13/01/25, 11:52:46 AM] Alice: Hello'' @ [13, 10] @ js ''there'' @ [10] @ js '' friend''
       @ [10] @ js ''[13/01/25, 11:53:00 AM] Bob: <attached: pic.jpg>''))) = [(js ''[13/01/25, 11:52:46 AM] Alice: Hello''), (js ''[13/01/25, 11:53:00 AM] Bob: <attached: pic.jpg>'')]"
    unfolding w_lines using w_start1 w_start2 w_conts by simp
  from ids_and_order [of "(js ''[13/01/25, 11:52:46 AM] Alice: Hello'' @ [13, 10] @ js ''there'' @ [10] @ js '' friend''
       @ [10] @ js ''[13/01/25, 11:53:00 AM] Bob: <attached: pic.jpg>'')"] obtain ms where
    p: "parseChatFile (js ''[13/01/25, 11:52:46 AM] Alice: Hello'' @ [13, 10] @ js ''there'' @ [10] @ js '' friend''
       @ [10] @ js ''[13/01/25, 11:53:00 AM] Bob: <attached: pic.jpg>'') = Inr ms" and l: "length ms = 2"
    and a: "\<forall>i<length ms. msgId (ms ! i) = js ''msg_'' @ showNat (i + 1) \<and> recordOf ([(js ''[13/01/25, 11:52:46 AM] Alice: Hello''), (js ''[13/01/25, 11:53:00 AM] Bob: <attached: pic.jpg>'')] ! i) (i + 1) (ms ! i)"
    unfolding f Let_def by auto
  from a l have "msgId (ms ! 0) = js ''msg_'' @ showNat 1 \<and> recordOf (js ''[13/01/25, 11:52:46 AM] Alice: Hello'') 1 (ms ! 0)"
    by (metis One_nat_def add_0 nth_Cons_0 zero_less_numeral)
  moreover from a l have "msgId (ms ! 1) = js ''msg_'' @ showNat 2 \<and> recordOf (js ''[13/01/25, 11:53:00 AM] Bob: <attached: pic.jpg>'') 2 (ms ! 1)"
    by (metis one_add_one nth_Cons_0 nth_Cons_Suc One_nat_def one_less_numeral_iff semiring_norm(76))
  ultimately show ?thesis using p l by (auto simp: evals)
qed

section \<open>The dash dialect: sender or system\<close>

lemma includesJs_iff: "includesJs s t \<longleftrightarrow> (\<exists>u v. s = u @ t @ v)"
proof (induction s)
  case Nil
  show ?case by (cases t) (auto simp: isPrefixOf_iff)
next
  case (Cons x xs)
  show ?case
  proof
    assume "includesJs (x # xs) t"
    then consider "isPrefixOf t (x # xs)" | "includesJs xs t" by auto
    then show "\<exists>u v. x # xs = u @ t @ v"
    proof cases
      case 1
      then obtain r where "x # xs = t @ r" unfolding isPrefixOf_iff by blast
      then have "x # xs = [] @ t @ r" by simp
      then show ?thesis by blast
    next
      case 2
      then obtain u v where "xs = u @ t @ v" using Cons.IH by blast
      then have "x # xs = (x # u) @ t @ v" by simp
      then show ?thesis by blast
    qed
  next
    assume "\<exists>u v. x # xs = u @ t @ v"
    then obtain u v where e: "x # xs = u @ t @ v" by blast
    show "includesJs (x # xs) t"
    proof (cases u)
      case Nil
      then have "isPrefixOf t (x # xs)" using e unfolding isPrefixOf_iff by auto
      then show ?thesis by simp
    next
      case (Cons a u')
      then have "xs = u' @ t @ v" using e by simp
      then have "includesJs xs t" using Cons.IH by blast
      then show ?thesis by simp
    qed
  qed
qed

lemma P1_needs_bracket:
  assumes "exec MESSAGE_START_PATTERN_1 line = Some m"
  shows "\<exists>r. line = 91 # r"
  using exec_P1_D[OF assms] by (auto simp: js_def)

lemma dash_line_not_P1:
  assumes "d \<in> lang False dateRx"
  shows "exec MESSAGE_START_PATTERN_1 (d @ r) = None"
proof (cases "exec MESSAGE_START_PATTERN_1 (d @ r)")
  case None
  then show ?thesis .
next
  case (Some m)
  from P1_needs_bracket[OF Some] obtain r' where e: "d @ r = 91 # r'" by blast
  from date_chars(2,3)[OF assms] have "hd (d @ r) = hd d" "isDigit (hd d)" by simp_all
  with e show ?thesis by (simp add: isDigit_def)
qed

text \<open>
  C10. Take a line that the system form of the dash dialect matches, and let the
  remainder be what it captures after the dash. If the remainder does not contain a
  colon followed by a space, then neither the bracket pattern nor the sender form of
  the dash pattern matches the line: the three attempts end with the system match and
  format 2, and the record opened is of type system, with the sender \<^verbatim>\<open>System\<close> and
  the trimmed remainder as content. A colon that no space follows, as in a URL, does
  not make a sender.
\<close>

theorem colon_space_decides_system:
  assumes "exec MESSAGE_START_PATTERN_2_SYSTEM line = Some m"
    and "m 3 = Some remainder"
    and "\<not> includesJs remainder (js '': '')"
  shows "tryPatterns line = (Some m, True, 2)
         \<and> (\<exists>ts. newMessage m True 2 n =
                Inr \<lparr>type = System, media = None, msgId = js ''msg_'' @ showNat n, timestamp = ts,
                     sender = js ''System'', content = trim remainder\<rparr>)"
proof -
  from assms(1)[unfolded exec_P2SYS_iff] obtain d t b where
    l: "line = d @ js '', '' @ t @ js '' - '' @ b" and
    f: "d \<in> lang False dateRx" "t \<in> lang False timeRx2" "b \<in> lang False restRx" and
    m: "m = [1 \<mapsto> d, 2 \<mapsto> t, 3 \<mapsto> b]" by blast
  have b: "b = remainder" using assms(2) m by simp
  have p1: "exec MESSAGE_START_PATTERN_1 line = None"
    unfolding l by (rule dash_line_not_P1[OF f(1)])
  have p2: "exec MESSAGE_START_PATTERN_2 line = None"
  proof (cases "exec MESSAGE_START_PATTERN_2 line")
    case None
    then show ?thesis .
  next
    case (Some m')
    from Some[unfolded exec_P2_iff] obtain d' t' sn b' where
      l': "line = d' @ js '', '' @ t' @ js '' - '' @ sn @ js '': '' @ b'" and
      f': "d' \<in> lang False dateRx" "t' \<in> lang False timeRx2" by blast
    have eq: "d @ js '', '' @ t @ (js '' - '' @ b) = d' @ js '', '' @ t' @ (js '' - '' @ sn @ js '': '' @ b')"
      using l l' by simp
    from prefixB_unique[OF f(1) f'(1) f(2) f'(2) eq] have "b = sn @ js '': '' @ b'" by simp
    then have "includesJs remainder (js '': '')" unfolding b[symmetric] includesJs_iff by blast
    with assms(3) show ?thesis by simp
  qed
  have tp: "tryPatterns line = (Some m, True, 2)"
    using p1 p2 assms(1) by (simp add: tryPatterns_def)
  from parseDateTime_tokens_ok[OF f(1), of t 2] f(2) obtain ts where "parseDateTime d t 2 = Inr ts" by blast
  then have "newMessage m True 2 n =
                Inr \<lparr>type = System, media = None, msgId = js ''msg_'' @ showNat n, timestamp = ts,
                     sender = js ''System'', content = trim remainder\<rparr>"
    using m b by (simp add: newMessage_def)
  with tp show ?thesis by blast
qed

theorem colon_space_decides_system_witness:
  "exec MESSAGE_START_PATTERN_2_SYSTEM (js ''1/13/26, 12:52 AM - https://example.com'')
     = Some [1 \<mapsto> js ''1/13/26'', 2 \<mapsto> js ''12:52 AM'', 3 \<mapsto> js ''https://example.com'']
   \<and> \<not> includesJs (js ''https://example.com'') (js '': '')
   \<and> tryPatterns (js ''1/13/26, 12:52 AM - https://example.com'')
       = (Some [1 \<mapsto> js ''1/13/26'', 2 \<mapsto> js ''12:52 AM'', 3 \<mapsto> js ''https://example.com''], True, 2)
   \<and> newMessage [1 \<mapsto> js ''1/13/26'', 2 \<mapsto> js ''12:52 AM'', 3 \<mapsto> js ''https://example.com''] True 2 7
       = Inr \<lparr>type = System, media = None, msgId = js ''msg_7'', timestamp = js ''2026-01-13T00:52:00'',
              sender = js ''System'', content = js ''https://example.com''\<rparr>"
proof -
  have e: "exec MESSAGE_START_PATTERN_2_SYSTEM (js ''1/13/26, 12:52 AM - https://example.com'')
     = Some [1 \<mapsto> js ''1/13/26'', 2 \<mapsto> js ''12:52 AM'', 3 \<mapsto> js ''https://example.com'']"
    by (simp add: rx_evals evals)
  have g: "[1 \<mapsto> js ''1/13/26'', 2 \<mapsto> js ''12:52 AM'', 3 \<mapsto> js ''https://example.com''] (3::nat)
             = Some (js ''https://example.com'')" by simp
  have i: "\<not> includesJs (js ''https://example.com'') (js '': '')" by (simp add: js_def)
  have n: "newMessage [1 \<mapsto> js ''1/13/26'', 2 \<mapsto> js ''12:52 AM'', 3 \<mapsto> js ''https://example.com''] True 2 7
       = Inr \<lparr>type = System, media = None, msgId = js ''msg_7'', timestamp = js ''2026-01-13T00:52:00'',
              sender = js ''System'', content = js ''https://example.com''\<rparr>"
    by (simp add: newMessage_def evals)
  from colon_space_decides_system [OF e g i, of 7]
  have "tryPatterns (js ''1/13/26, 12:52 AM - https://example.com'')
       = (Some [1 \<mapsto> js ''1/13/26'', 2 \<mapsto> js ''12:52 AM'', 3 \<mapsto> js ''https://example.com''], True, 2)"
    by (rule conjunct1)
  with e i n show ?thesis by blast
qed

section \<open>Start lines by their text\<close>

text \<open>
  The bracket pattern is characterised like the dash patterns: it matches exactly the
  lines of its shape, and the captures are the pieces of the line.
\<close>

lemma time1_shape:
  assumes "t \<in> lang False timeRx1"
  shows "\<exists>h m8. t = h @ 58 # m8 \<and> list_all isDigit h \<and> length m8 = 8"
proof -
  from lang_timeRx1_D[OF assms] obtain h m s p where
    "t = h @ js '':'' @ m @ js '':'' @ s @ [32, p, 77]" "numField h" "length m = 2" "length s = 2" by blast
  then have "t = h @ 58 # (m @ js '':'' @ s @ [32, p, 77])" "list_all isDigit h"
    "length (m @ js '':'' @ s @ [32, p, 77]) = 8"
    by (simp_all add: js_def numField_def)
  then show ?thesis by blast
qed

lemma prefixA_unique:
  assumes "d \<in> lang False dateRx" "d' \<in> lang False dateRx"
    and "t \<in> lang False timeRx1" "t' \<in> lang False timeRx1"
    and "d @ js '', '' @ t @ X = d' @ js '', '' @ t' @ X'"
  shows "d = d' \<and> t = t' \<and> X = X'"
proof -
  have e: "d @ 44 # (32 # t @ X) = d' @ 44 # (32 # t' @ X')"
    using assms(5) by (simp add: js_def)
  have n: "\<not> (isDigit 44 \<or> (44::nat) = 47)" by (simp add: isDigit_def)
  from first_sep_unique[OF date_chars(1)[OF assms(1)] date_chars(1)[OF assms(2)] n n e]
  have dd: "d = d'" and tx: "t @ X = t' @ X'" by simp_all
  from time1_shape[OF assms(3)] obtain h m8 where t: "t = h @ 58 # m8" "list_all isDigit h" "length m8 = 8"
    by blast
  from time1_shape[OF assms(4)] obtain h' m8' where t': "t' = h' @ 58 # m8'" "list_all isDigit h'" "length m8' = 8"
    by blast
  have e2: "h @ 58 # (m8 @ X) = h' @ 58 # (m8' @ X')" using tx t(1) t'(1) by simp
  have n2: "\<not> isDigit 58" by (simp add: isDigit_def)
  have dh: "\<forall>x\<in>set h. isDigit x" "\<forall>x\<in>set h'. isDigit x"
    using t(2) t'(2) by (simp_all add: list_all_iff)
  from first_sep_unique[where P=isDigit, OF dh n2 n2 e2]
  have hh: "h = h'" and mx: "m8 @ X = m8' @ X'" by simp_all
  from mx t(3) t'(3) have "m8 = m8'" "X = X'" by simp_all
  then show ?thesis using dd hh t(1) t'(1) by simp
qed

lemma exec_P1_iff:
  "exec MESSAGE_START_PATTERN_1 line = Some m \<longleftrightarrow>
     (\<exists>d t sn b. line = js ''['' @ d @ js '', '' @ t @ js ''] '' @ sn @ js '': '' @ b
        \<and> d \<in> lang False dateRx \<and> t \<in> lang False timeRx1 \<and> sn \<in> lang False senderRx \<and> b \<in> lang False bodyRx
        \<and> m = [1 \<mapsto> d, 2 \<mapsto> t, 3 \<mapsto> sn, 4 \<mapsto> b])"
  (is "?L \<longleftrightarrow> ?R")
proof
  assume ?L
  then show ?R by (rule exec_P1_D)
next
  assume ?R
  then obtain d t sn b where l: "line = js ''['' @ d @ js '', '' @ t @ js ''] '' @ sn @ js '': '' @ b"
    and f: "d \<in> lang False dateRx" "t \<in> lang False timeRx1" "sn \<in> lang False senderRx" "b \<in> lang False bodyRx"
    and m: "m = [1 \<mapsto> d, 2 \<mapsto> t, 3 \<mapsto> sn, 4 \<mapsto> b]" by blast
  have in_set: "(m, []) \<in> set (rx (ignoreCase MESSAGE_START_PATTERN_1) (body MESSAGE_START_PATTERN_1) Map.empty line)"
    unfolding icase P1_results using l f m
    by (intro exI[of _ d] exI[of _ t] exI[of _ sn] exI[of _ b]) simp
  have uniq: "m' = m" if "(m', r') \<in> set (rx (ignoreCase MESSAGE_START_PATTERN_1) (body MESSAGE_START_PATTERN_1) Map.empty line)"
    for m' r'
  proof -
    from that[unfolded icase P1_results]
    obtain d' t' sn' b' where l': "line = js ''['' @ d' @ js '', '' @ t' @ js ''] '' @ sn' @ js '': '' @ b'"
      and f': "d' \<in> lang False dateRx" "t' \<in> lang False timeRx1" "sn' \<in> lang False senderRx" "b' \<in> lang False bodyRx"
      and m': "m' = [1 \<mapsto> d', 2 \<mapsto> t', 3 \<mapsto> sn', 4 \<mapsto> b']"
      by blast
    have eq: "d @ js '', '' @ t @ (js ''] '' @ sn @ js '': '' @ b) = d' @ js '', '' @ t' @ (js ''] '' @ sn' @ js '': '' @ b')"
      using l l' by simp
    from prefixA_unique[OF f(1) f'(1) f(2) f'(2) eq]
    have dd: "d = d'" "t = t'" and rest: "js ''] '' @ sn @ js '': '' @ b = js ''] '' @ sn' @ js '': '' @ b'"
      by simp_all
    have e: "sn @ 58 # (32 # b) = sn' @ 58 # (32 # b')" using rest by (simp add: js_def)
    have "sn = sn' \<and> (58::nat) = 58 \<and> 32 # b = 32 # b'"
      using f(3) f'(3) by (intro first_sep_unique[where P="\<lambda>x. x \<noteq> 58", OF _ _ _ _ e]) (auto simp: lang_senderRx)
    then show ?thesis using dd m m' by simp
  qed
  have "matchAt MESSAGE_START_PATTERN_1 line = Some m"
    using in_set uniq by (rule matchAt_unique)
  then show ?L by (simp add: exec_def)
qed

lemma bracket_start:
  assumes "d \<in> lang False dateRx" "t \<in> lang False timeRx1" "sn \<noteq> []" "58 \<notin> set sn"
    and "\<forall>c\<in>set b. \<not> isLineTerminator c"
  shows "tryPatterns (js ''['' @ d @ js '', '' @ t @ js ''] '' @ sn @ js '': '' @ b)
           = (Some [1 \<mapsto> d, 2 \<mapsto> t, 3 \<mapsto> sn, 4 \<mapsto> b], False, 1)"
proof -
  have "sn \<in> lang False senderRx" "b \<in> lang False bodyRx"
    using assms(3-5) by (auto simp: lang_senderRx lang_bodyRx)
  with assms(1,2) have "exec MESSAGE_START_PATTERN_1 (js ''['' @ d @ js '', '' @ t @ js ''] '' @ sn @ js '': '' @ b)
           = Some [1 \<mapsto> d, 2 \<mapsto> t, 3 \<mapsto> sn, 4 \<mapsto> b]"
    unfolding exec_P1_iff by blast
  then show ?thesis by (simp add: tryPatterns_def)
qed

lemma dash_sender_start:
  assumes "d \<in> lang False dateRx" "t \<in> lang False timeRx2" "sn \<noteq> []" "58 \<notin> set sn"
    and "\<forall>c\<in>set b. \<not> isLineTerminator c"
  shows "tryPatterns (d @ js '', '' @ t @ js '' - '' @ sn @ js '': '' @ b)
           = (Some [1 \<mapsto> d, 2 \<mapsto> t, 3 \<mapsto> sn, 4 \<mapsto> b], False, 2)"
proof -
  have "sn \<in> lang False senderRx" "b \<in> lang False bodyRx"
    using assms(3-5) by (auto simp: lang_senderRx lang_bodyRx)
  with assms(1,2) have "exec MESSAGE_START_PATTERN_2 (d @ js '', '' @ t @ js '' - '' @ sn @ js '': '' @ b)
           = Some [1 \<mapsto> d, 2 \<mapsto> t, 3 \<mapsto> sn, 4 \<mapsto> b]"
    unfolding exec_P2_iff by blast
  moreover have "exec MESSAGE_START_PATTERN_1 (d @ js '', '' @ t @ js '' - '' @ sn @ js '': '' @ b) = None"
    by (rule dash_line_not_P1[OF assms(1)])
  ultimately show ?thesis by (simp add: tryPatterns_def)
qed

lemma dash_system_start:
  assumes "d \<in> lang False dateRx" "t \<in> lang False timeRx2" "b \<noteq> []"
    and "\<forall>c\<in>set b. \<not> isLineTerminator c"
    and "\<not> (\<exists>sn r. sn \<noteq> [] \<and> 58 \<notin> set sn \<and> b = sn @ js '': '' @ r)"
  shows "tryPatterns (d @ js '', '' @ t @ js '' - '' @ b) = (Some [1 \<mapsto> d, 2 \<mapsto> t, 3 \<mapsto> b], True, 2)"
proof -
  let ?line = "d @ js '', '' @ t @ js '' - '' @ b"
  have "b \<in> lang False restRx" using assms(3,4) by (auto simp: lang_restRx)
  with assms(1,2) have s: "exec MESSAGE_START_PATTERN_2_SYSTEM ?line = Some [1 \<mapsto> d, 2 \<mapsto> t, 3 \<mapsto> b]"
    unfolding exec_P2SYS_iff by blast
  have p1: "exec MESSAGE_START_PATTERN_1 ?line = None"
    by (rule dash_line_not_P1[OF assms(1)])
  have p2: "exec MESSAGE_START_PATTERN_2 ?line = None"
  proof (cases "exec MESSAGE_START_PATTERN_2 ?line")
    case None
    then show ?thesis .
  next
    case (Some m')
    from Some[unfolded exec_P2_iff] obtain d' t' sn b' where
      l': "?line = d' @ js '', '' @ t' @ js '' - '' @ sn @ js '': '' @ b'" and
      f': "d' \<in> lang False dateRx" "t' \<in> lang False timeRx2" "sn \<in> lang False senderRx" by blast
    have eq: "d @ js '', '' @ t @ (js '' - '' @ b) = d' @ js '', '' @ t' @ (js '' - '' @ sn @ js '': '' @ b')"
      using l' by simp
    from prefixB_unique[OF assms(1) f'(1) assms(2) f'(2) eq] have "b = sn @ js '': '' @ b'" by simp
    moreover have "sn \<noteq> [] \<and> 58 \<notin> set sn" using f'(3) by (auto simp: lang_senderRx)
    ultimately show ?thesis using assms(5) by blast
  qed
  show ?thesis using p1 p2 s by (simp add: tryPatterns_def)
qed

text \<open>
  The three shapes of a start line, with the body \<open>b\<close> of the message: the bracket
  form, the dash form with a sender, and the dash form without one, which applies when
  the remainder does not begin with a sender, a colon and a space.
\<close>

lemma start_shape:
  assumes "d \<in> lang False dateRx" and "\<forall>c\<in>set b. \<not> isLineTerminator c"
    and "(t \<in> lang False timeRx1 \<and> sn \<noteq> [] \<and> 58 \<notin> set sn
            \<and> line = js ''['' @ d @ js '', '' @ t @ js ''] '' @ sn @ js '': '' @ b)
         \<or> (t \<in> lang False timeRx2 \<and> sn \<noteq> [] \<and> 58 \<notin> set sn
            \<and> line = d @ js '', '' @ t @ js '' - '' @ sn @ js '': '' @ b)
         \<or> (t \<in> lang False timeRx2 \<and> b \<noteq> []
            \<and> \<not> (\<exists>sn' r. sn' \<noteq> [] \<and> 58 \<notin> set sn' \<and> b = sn' @ js '': '' @ r)
            \<and> line = d @ js '', '' @ t @ js '' - '' @ b)"
  shows "line \<noteq> [] \<and> (\<exists>m sys fmt. tryPatterns line = (Some m, sys, fmt) \<and> m (if sys then 3 else 4) = Some b)"
proof -
  from assms(3) consider
    (a) "t \<in> lang False timeRx1" "sn \<noteq> []" "58 \<notin> set sn"
        "line = js ''['' @ d @ js '', '' @ t @ js ''] '' @ sn @ js '': '' @ b"
  | (b) "t \<in> lang False timeRx2" "sn \<noteq> []" "58 \<notin> set sn"
        "line = d @ js '', '' @ t @ js '' - '' @ sn @ js '': '' @ b"
  | (c) "t \<in> lang False timeRx2" "b \<noteq> []"
        "\<not> (\<exists>sn' r. sn' \<noteq> [] \<and> 58 \<notin> set sn' \<and> b = sn' @ js '': '' @ r)"
        "line = d @ js '', '' @ t @ js '' - '' @ b"
    by blast
  then show ?thesis
  proof cases
    case a
    have "tryPatterns line = (Some [1 \<mapsto> d, 2 \<mapsto> t, 3 \<mapsto> sn, 4 \<mapsto> b], False, 1)"
      unfolding a(4) using assms(1) a(1-3) assms(2) by (rule bracket_start)
    moreover have "line \<noteq> []" unfolding a(4) by (simp add: js_def)
    ultimately show ?thesis by auto
  next
    case b
    have "tryPatterns line = (Some [1 \<mapsto> d, 2 \<mapsto> t, 3 \<mapsto> sn, 4 \<mapsto> b], False, 2)"
      unfolding b(4) using assms(1) b(1-3) assms(2) by (rule dash_sender_start)
    moreover have "line \<noteq> []" unfolding b(4) by (simp add: js_def)
    ultimately show ?thesis by auto
  next
    case c
    have "tryPatterns line = (Some [1 \<mapsto> d, 2 \<mapsto> t, 3 \<mapsto> b], True, 2)"
      unfolding c(4) using assms(1) c(1,2) assms(2) c(3) by (rule dash_system_start)
    moreover have "line \<noteq> []" unfolding c(4) by (simp add: js_def)
    ultimately show ?thesis by auto
  qed
qed

lemma start_line_shapes:
  assumes "isStartLine s"
  shows "\<exists>d t sn b. d \<in> lang False dateRx \<and> (\<forall>c\<in>set b. \<not> isLineTerminator c)
          \<and> ((t \<in> lang False timeRx1 \<and> sn \<noteq> [] \<and> 58 \<notin> set sn
                \<and> cleanLine s = js ''['' @ d @ js '', '' @ t @ js ''] '' @ sn @ js '': '' @ b)
              \<or> (t \<in> lang False timeRx2 \<and> sn \<noteq> [] \<and> 58 \<notin> set sn
                \<and> cleanLine s = d @ js '', '' @ t @ js '' - '' @ sn @ js '': '' @ b)
              \<or> (t \<in> lang False timeRx2 \<and> b \<noteq> []
                \<and> \<not> (\<exists>sn' r. sn' \<noteq> [] \<and> 58 \<notin> set sn' \<and> b = sn' @ js '': '' @ r)
                \<and> cleanLine s = d @ js '', '' @ t @ js '' - '' @ b))"
proof -
  from assms obtain m sys fmt where tp: "tryPatterns (cleanLine s) = (Some m, sys, fmt)"
    unfolding isStartLine_def by (cases "tryPatterns (cleanLine s)") auto
  from tryPatterns_cases[OF tp]
  consider (a) "exec MESSAGE_START_PATTERN_1 (cleanLine s) = Some m"
    | (b) "exec MESSAGE_START_PATTERN_2 (cleanLine s) = Some m"
    | (c) "exec MESSAGE_START_PATTERN_2 (cleanLine s) = None" "exec MESSAGE_START_PATTERN_2_SYSTEM (cleanLine s) = Some m"
    by auto
  then show ?thesis
  proof cases
    case a
    from exec_P1_D[OF a] obtain d t sn b where
      "cleanLine s = js ''['' @ d @ js '', '' @ t @ js ''] '' @ sn @ js '': '' @ b"
      "d \<in> lang False dateRx" "t \<in> lang False timeRx1" "sn \<in> lang False senderRx" "b \<in> lang False bodyRx"
      by blast
    then have "d \<in> lang False dateRx \<and> (\<forall>c\<in>set b. \<not> isLineTerminator c)
          \<and> (t \<in> lang False timeRx1 \<and> sn \<noteq> [] \<and> 58 \<notin> set sn
                \<and> cleanLine s = js ''['' @ d @ js '', '' @ t @ js ''] '' @ sn @ js '': '' @ b)"
      by (auto simp: lang_senderRx lang_bodyRx)
    then show ?thesis by blast
  next
    case b
    from b[unfolded exec_P2_iff] obtain d t sn b where
      "cleanLine s = d @ js '', '' @ t @ js '' - '' @ sn @ js '': '' @ b"
      "d \<in> lang False dateRx" "t \<in> lang False timeRx2" "sn \<in> lang False senderRx" "b \<in> lang False bodyRx"
      by blast
    then have "d \<in> lang False dateRx \<and> (\<forall>c\<in>set b. \<not> isLineTerminator c)
          \<and> (t \<in> lang False timeRx2 \<and> sn \<noteq> [] \<and> 58 \<notin> set sn
                \<and> cleanLine s = d @ js '', '' @ t @ js '' - '' @ sn @ js '': '' @ b)"
      by (auto simp: lang_senderRx lang_bodyRx)
    then show ?thesis by blast
  next
    case c
    from c(2)[unfolded exec_P2SYS_iff] obtain d t b where
      l: "cleanLine s = d @ js '', '' @ t @ js '' - '' @ b" and
      f: "d \<in> lang False dateRx" "t \<in> lang False timeRx2" "b \<in> lang False restRx"
      by blast
    have nb: "b \<noteq> []" "\<forall>c\<in>set b. \<not> isLineTerminator c" using f(3) by (auto simp: lang_restRx)
    have no: "\<not> (\<exists>sn' r. sn' \<noteq> [] \<and> 58 \<notin> set sn' \<and> b = sn' @ js '': '' @ r)"
    proof
      assume "\<exists>sn' r. sn' \<noteq> [] \<and> 58 \<notin> set sn' \<and> b = sn' @ js '': '' @ r"
      then obtain sn' r where x: "sn' \<noteq> []" "58 \<notin> set sn'" "b = sn' @ js '': '' @ r" by blast
      have "\<forall>c\<in>set r. \<not> isLineTerminator c" using nb(2) x(3) by simp
      from dash_sender_start[OF f(1,2) x(1,2) this] l x(3)
      have "tryPatterns (cleanLine s) = (Some [1 \<mapsto> d, 2 \<mapsto> t, 3 \<mapsto> sn', 4 \<mapsto> r], False, 2)" by simp
      with tryPatterns_cases[OF this] c(1) show False by simp
    qed
    have "d \<in> lang False dateRx \<and> (\<forall>c\<in>set b. \<not> isLineTerminator c)
          \<and> (t \<in> lang False timeRx2 \<and> b \<noteq> []
                \<and> \<not> (\<exists>sn' r. sn' \<noteq> [] \<and> 58 \<notin> set sn' \<and> b = sn' @ js '': '' @ r)
                \<and> cleanLine s = d @ js '', '' @ t @ js '' - '' @ b)"
      using l f nb no by blast
    then show ?thesis by blast
  qed
qed

section \<open>Folding of continuation lines\<close>

text \<open>
  C1. Take a transcript whose lines are \<open>pre\<close>, then a line \<open>s\<close>, then lines
  \<open>conts\<close> none of which is a start line, then \<open>post\<close>, which is empty or begins
  with a start line. Let \<open>s\<close>, once cleaned, be a start line with the body \<open>b\<close>: a
  date token \<open>d\<close>, a time token \<open>t\<close> and either the bracket form
  \<^verbatim>\<open>[d, t] sn: b\<close>, the dash form \<^verbatim>\<open>d, t - sn: b\<close> with a sender \<open>sn\<close> that has
  no colon, or the dash form \<^verbatim>\<open>d, t - b\<close> where \<open>b\<close> does not begin with a sender
  followed by a colon and a space. Parsing the transcript returns a sequence with
  exactly one record for \<open>s\<close>, at the position given by the number \<open>k\<close> of start
  lines in \<open>pre\<close>. Its content is the trimmed body \<open>b\<close> followed, in the order of the
  transcript, by a line break and the cleaned text of each line of \<open>conts\<close> that is
  not blank; the other fields are those of the record that \<open>s\<close> opened. Its
  identifier is \<^verbatim>\<open>msg_\<close> followed by \<open>k + 1\<close>, and the record of the next start line
  has \<open>k + 2\<close>: the counter advanced by one, whatever the number of lines folded.
\<close>

theorem continuation_folding:
  assumes "split 10 (replaceCrLf fileText) = pre @ [s] @ conts @ post"
    and "d \<in> lang False dateRx" and "\<forall>c\<in>set b. \<not> isLineTerminator c"
    and "(t \<in> lang False timeRx1 \<and> sn \<noteq> [] \<and> 58 \<notin> set sn
            \<and> cleanLine s = js ''['' @ d @ js '', '' @ t @ js ''] '' @ sn @ js '': '' @ b)
         \<or> (t \<in> lang False timeRx2 \<and> sn \<noteq> [] \<and> 58 \<notin> set sn
            \<and> cleanLine s = d @ js '', '' @ t @ js '' - '' @ sn @ js '': '' @ b)
         \<or> (t \<in> lang False timeRx2 \<and> b \<noteq> []
            \<and> \<not> (\<exists>sn' r. sn' \<noteq> [] \<and> 58 \<notin> set sn' \<and> b = sn' @ js '': '' @ r)
            \<and> cleanLine s = d @ js '', '' @ t @ js '' - '' @ b)"
    and "\<forall>c\<in>set conts. \<not> isStartLine c"
    and "post = [] \<or> isStartLine (hd post)"
  shows "\<exists>ms. parseChatFile fileText = Inr ms
           \<and> (let k = length (filter isStartLine pre) in
                length ms = k + 1 + length (filter isStartLine post)
                \<and> content (ms ! k) = trim b @ concat (map (\<lambda>l. 10 # cleanLine l) (filter (\<lambda>l. cleanLine l \<noteq> []) conts))
                \<and> opened s (k + 1) = Some ((ms ! k)\<lparr>content := trim b\<rparr>)
                \<and> msgId (ms ! k) = js ''msg_'' @ showNat (k + 1)
                \<and> (post \<noteq> [] \<longrightarrow> msgId (ms ! (k + 1)) = js ''msg_'' @ showNat (k + 2)))"
proof -
  let ?init = "\<lparr>messages = [], currentMessage = None, messageId = 0\<rparr>"
  let ?k = "length (filter isStartLine pre)"
  from start_shape[OF assms(2,3,4)] obtain m sys fmt where
    ne: "cleanLine s \<noteq> []" and tp: "tryPatterns (cleanLine s) = (Some m, sys, fmt)"
    and mb: "m (if sys then 3 else 4) = Some b" by blast
  have st: "isStartLine s" using ne tp by (simp add: isStartLine_def)
  from tracks_run[OF tracks_init, of pre] obtain st1 where
    r1: "run ?init pre = Inr st1" and t1: "tracks st1 pre" by auto
  from t1 have k: "messageId st1 = ?k" "length (flush st1) = ?k" by (simp_all add: tracks_def)
  from step_start[OF st, of st1] obtain msg where
    o: "opened s (?k + 1) = Some msg"
    and s2: "step st1 s = Inr \<lparr>messages = flush st1, currentMessage = Some msg, messageId = ?k + 1\<rparr>"
    unfolding k by blast
  have cb: "content msg = trim b"
    using tp mb o by (cases sys) (auto simp: opened_def newMessage_def split: option.splits sum.splits)
  let ?st2 = "\<lparr>messages = flush st1, currentMessage = Some msg, messageId = ?k + 1\<rparr>"
  let ?msg' = "msg\<lparr>content := content msg @ joined conts\<rparr>"
  let ?st3 = "?st2\<lparr>currentMessage := Some ?msg'\<rparr>"
  have r3: "run ?st2 conts = Inr ?st3" using run_conts[OF assms(5), of ?st2] by simp
  have r13: "run ?init (pre @ [s] @ conts) = Inr ?st3"
    using r1 s2 r3 by (simp add: run_append)
  from tracks_run[OF tracks_init, of "pre @ [s] @ conts"] r13
  have t3: "tracks ?st3 (pre @ [s] @ conts)" by auto
  from tracks_run[OF t3, of post] obtain st5 where
    r5: "run ?st3 post = Inr st5" and t5: "tracks st5 ((pre @ [s] @ conts) @ post)" by blast
  have "run ?init (pre @ [s] @ conts @ post) = Inr st5"
    using r13 r5 run_append[of ?init "pre @ [s] @ conts" post] by simp
  then have p: "parseChatFile fileText = Inr (flush st5)"
    by (simp add: parseChatFile_def parseLines_def assms(1))
  have nc: "filter isStartLine conts = []" using assms(5) by (simp add: filter_empty_conv)
  have n5: "messageId st5 = ?k + 1 + length (filter isStartLine post)"
    and l5: "length (flush st5) = ?k + 1 + length (filter isStartLine post)"
    using t5 st nc by (simp_all add: tracks_def)
  have f3: "flush ?st3 = flush st1 @ [?msg']" by (simp add: flush_def)
  have at_k: "flush st5 ! ?k = ?msg'"
  proof (cases post)
    case Nil
    then have "st5 = ?st3" using r5 by simp
    then show ?thesis using f3 by (simp add: k(2)[symmetric])
  next
    case (Cons q qs)
    then have q: "isStartLine q" using assms(6) by simp
    from step_start[OF q, of ?st3] obtain msg2 where
      s4: "step ?st3 q = Inr \<lparr>messages = flush ?st3, currentMessage = Some msg2, messageId = messageId ?st3 + 1\<rparr>"
      by blast
    let ?st4 = "\<lparr>messages = flush ?st3, currentMessage = Some msg2, messageId = messageId ?st3 + 1\<rparr>"
    from r5 Cons s4 have "run ?st4 qs = Inr st5" by simp
    from run_frozen[OF this] obtain ext where "messages st5 = (flush st1 @ [?msg']) @ ext"
      unfolding f3 by auto
    from flush_nth_frozen[OF this, of ?k] show ?thesis by (simp add: k(2)[symmetric])
  qed
  have c_k: "content (flush st5 ! ?k) = trim b @ concat (map (\<lambda>l. 10 # cleanLine l) (filter (\<lambda>l. cleanLine l \<noteq> []) conts))"
    unfolding at_k using cb by (simp add: joined_def)
  have o_k: "opened s (?k + 1) = Some ((flush st5 ! ?k)\<lparr>content := trim b\<rparr>)"
    unfolding at_k o using cb by simp
  have id_k: "msgId (flush st5 ! ?k) = js ''msg_'' @ showNat (?k + 1)"
    using tracks_msgId[OF t5, of ?k] n5 by simp
  have id_next: "msgId (flush st5 ! (?k + 1)) = js ''msg_'' @ showNat (?k + 2)" if "post \<noteq> []"
  proof -
    from that assms(6) obtain q qs where "post = q # qs" "isStartLine q" by (cases post) auto
    then have "?k + 1 < messageId st5" using n5 by simp
    from tracks_msgId[OF t5 this] show ?thesis by simp
  qed
  show ?thesis
    using p l5 c_k o_k id_k id_next by (auto simp: Let_def)
qed

lemma bracket_tokens_example:
  "js ''13/01/25'' \<in> lang False dateRx" "js ''11:52:46 AM'' \<in> lang False timeRx1"
proof -
  have "exec MESSAGE_START_PATTERN_1 (js ''[13/01/25, 11:52:46 AM] Alice: Hello'')
          = Some [1 \<mapsto> js ''13/01/25'', 2 \<mapsto> js ''11:52:46 AM'', 3 \<mapsto> js ''Alice'', 4 \<mapsto> js ''Hello'']"
    by (simp add: rx_evals evals)
  from exec_P1_D[OF this] obtain d t sn b where
    f: "d \<in> lang False dateRx" "t \<in> lang False timeRx1"
    and m: "[1 \<mapsto> js ''13/01/25'', 2 \<mapsto> js ''11:52:46 AM'', 3 \<mapsto> js ''Alice'', 4 \<mapsto> js ''Hello'']
              = [(1::nat) \<mapsto> d, 2 \<mapsto> t, 3 \<mapsto> sn, 4 \<mapsto> b]" by blast
  from fun_cong[OF m, of 1] have "d = js ''13/01/25''" by simp
  moreover from fun_cong[OF m, of 2] have "t = js ''11:52:46 AM''" by simp
  ultimately show "js ''13/01/25'' \<in> lang False dateRx" "js ''11:52:46 AM'' \<in> lang False timeRx1"
    using f by simp_all
qed

lemma bracket_clean_example:
  "cleanLine (js ''[13/01/25, 11:52:46 AM] Alice: Hello'')
     = js ''['' @ js ''13/01/25'' @ js '', '' @ js ''11:52:46 AM'' @ js ''] '' @ js ''Alice'' @ js '': '' @ js ''Hello''"
  by (simp add: cleanLine_def evals)

theorem continuation_folding_witness:
  "cleanLine (js ''[13/01/25, 11:52:46 AM] Alice: Hello'')
     = js ''['' @ js ''13/01/25'' @ js '', '' @ js ''11:52:46 AM'' @ js ''] '' @ js ''Alice'' @ js '': '' @ js ''Hello''
   \<and> js ''13/01/25'' \<in> lang False dateRx \<and> js ''11:52:46 AM'' \<in> lang False timeRx1
   \<and> \<not> isStartLine (js ''there'') \<and> \<not> isStartLine (js '' friend'')
   \<and> isStartLine (js ''[13/01/25, 11:53:00 AM] Bob: <attached: pic.jpg>'')
   \<and> (\<exists>ms. parseChatFile (js ''[13/01/25, 11:52:46 AM] Alice: Hello'' @ [13, 10] @ js ''there'' @ [10] @ js '' friend''
       @ [10] @ js ''[13/01/25, 11:53:00 AM] Bob: <attached: pic.jpg>'') = Inr ms \<and> length ms = 2
         \<and> content (ms ! 0) = js ''Hello'' @ [10] @ js ''there'' @ [10] @ js ''friend''
         \<and> msgId (ms ! 0) = js ''msg_1'' \<and> msgId (ms ! 1) = js ''msg_2'')"
proof -
  have 3: "\<forall>c\<in>set (js ''Hello''). \<not> isLineTerminator c" by (simp add: js_def isLineTerminator_def)
  have 4: "(js ''11:52:46 AM'' \<in> lang False timeRx1 \<and> js ''Alice'' \<noteq> [] \<and> 58 \<notin> set (js ''Alice'')
            \<and> cleanLine (js ''[13/01/25, 11:52:46 AM] Alice: Hello'')
                = js ''['' @ js ''13/01/25'' @ js '', '' @ js ''11:52:46 AM'' @ js ''] '' @ js ''Alice'' @ js '': '' @ js ''Hello'')
         \<or> (js ''11:52:46 AM'' \<in> lang False timeRx2 \<and> js ''Alice'' \<noteq> [] \<and> 58 \<notin> set (js ''Alice'')
            \<and> cleanLine (js ''[13/01/25, 11:52:46 AM] Alice: Hello'')
                = js ''13/01/25'' @ js '', '' @ js ''11:52:46 AM'' @ js '' - '' @ js ''Alice'' @ js '': '' @ js ''Hello'')
         \<or> (js ''11:52:46 AM'' \<in> lang False timeRx2 \<and> js ''Hello'' \<noteq> []
            \<and> \<not> (\<exists>sn' r. sn' \<noteq> [] \<and> 58 \<notin> set sn' \<and> js ''Hello'' = sn' @ js '': '' @ r)
            \<and> cleanLine (js ''[13/01/25, 11:52:46 AM] Alice: Hello'')
                = js ''13/01/25'' @ js '', '' @ js ''11:52:46 AM'' @ js '' - '' @ js ''Hello'')"
    using bracket_tokens_example(2) bracket_clean_example by (intro disjI1 conjI) (simp_all add: js_def)
  have 6: "[(js ''[13/01/25, 11:53:00 AM] Bob: <attached: pic.jpg>'')] = [] \<or> isStartLine (hd [(js ''[13/01/25, 11:53:00 AM] Bob: <attached: pic.jpg>'')])" using w_start2 by simp
  have ids: "js ''msg_'' @ showNat (Suc 0) = js ''msg_1''" "js ''msg_'' @ showNat (Suc (Suc 0)) = js ''msg_2''"
    by (simp_all add: js_def showNat.simps)
  have tr: "trim (js ''Hello'') = js ''Hello''" by (simp add: evals)
  have wj: "concat (map (\<lambda>l. 10 # cleanLine l) (filter (\<lambda>l. cleanLine l \<noteq> []) [js ''there'', js '' friend''])) = [10] @ js ''there'' @ [10] @ js ''friend''"
    using w_joined unfolding joined_def .
  from continuation_folding [OF w_lines bracket_tokens_example(1) 3 4 w_conts 6] obtain ms where
    p: "parseChatFile (js ''[13/01/25, 11:52:46 AM] Alice: Hello'' @ [13, 10] @ js ''there'' @ [10] @ js '' friend''
       @ [10] @ js ''[13/01/25, 11:53:00 AM] Bob: <attached: pic.jpg>'') = Inr ms"
    and r: "let k = length (filter isStartLine ([] :: jsstring list)) in
              length ms = k + 1 + length (filter isStartLine [(js ''[13/01/25, 11:53:00 AM] Bob: <attached: pic.jpg>'')])
              \<and> content (ms ! k) = trim (js ''Hello'') @ concat (map (\<lambda>l. 10 # cleanLine l) (filter (\<lambda>l. cleanLine l \<noteq> []) [js ''there'', js '' friend'']))
              \<and> opened (js ''[13/01/25, 11:52:46 AM] Alice: Hello'') (k + 1) = Some ((ms ! k)\<lparr>content := trim (js ''Hello'')\<rparr>)
              \<and> msgId (ms ! k) = js ''msg_'' @ showNat (k + 1)
              \<and> ([(js ''[13/01/25, 11:53:00 AM] Bob: <attached: pic.jpg>'')] \<noteq> [] \<longrightarrow> msgId (ms ! (k + 1)) = js ''msg_'' @ showNat (k + 2))"
    by blast
  have f: "filter isStartLine [(js ''[13/01/25, 11:53:00 AM] Bob: <attached: pic.jpg>'')] = [(js ''[13/01/25, 11:53:00 AM] Bob: <attached: pic.jpg>'')]" using w_start2 by simp
  from r have "length ms = 2"
    "content (ms ! 0) = js ''Hello'' @ [10] @ js ''there'' @ [10] @ js ''friend''"
    "msgId (ms ! 0) = js ''msg_1''" "msgId (ms ! 1) = js ''msg_2''"
    unfolding Let_def f wj tr by (auto simp: ids)
  with p show ?thesis
    using bracket_clean_example bracket_tokens_example w_start2 w_conts by auto
qed

section \<open>The narrow no-break space\<close>

lemma time_token_swap:
  assumes "hm @ [sep] @ ap \<in> lang False timeRx2" and "sep = 32 \<or> sep = 8239" and "sep' = 32 \<or> sep' = 8239"
  shows "hm @ [sep'] @ ap \<in> lang False timeRx2"
    and "\<forall>c\<in>set hm. \<not> (isWs c \<or> c = 8239)"
    and "\<forall>c\<in>set ap. \<not> (isWs c \<or> c = 8239)"
proof -
  from lang_timeRx2_D[OF assms(1)] obtain h m w p where
    t: "hm @ [sep] @ ap = h @ js '':'' @ m @ [w, p, 77]" and
    f: "numField h" "length h \<le> 2" "numField m" "length m = 2" "isWs w \<or> w = 8239" "p = 65 \<or> p = 80"
    by blast
  have nd: "\<not> isDigit sep" "sep \<noteq> 58" "sep \<noteq> 65" "sep \<noteq> 80" "sep \<noteq> 77"
    using assms(2) by (auto simp: isDigit_def)
  have "sep \<in> set (hm @ [sep] @ ap)" by simp
  then have "sep \<in> set h \<union> {58} \<union> set m \<union> {w, p, 77}" unfolding t by (auto simp: js_def)
  then have w: "w = sep"
    using nd f(1,3,6) by (auto simp: numField_def list_all_iff)
  have u: "sep \<notin> set (h @ 58 # m)" using nd f(1,3) by (auto simp: numField_def list_all_iff)
  have v: "sep \<notin> set [p, 77]" using nd f(6) by auto
  have "(h @ 58 # m) @ sep # [p, 77] = hm @ sep # ap" using t w by (simp add: js_def)
  from split_unique_elem[OF u v this] have hm: "hm = h @ 58 # m" and ap: "ap = [p, 77]" by simp_all
  have s': "isWs sep' \<or> sep' = 8239" using assms(3) by (auto simp: isWs_def)
  from lang_timeRx2_I[OF f(1-4) s' f(6)] show "hm @ [sep'] @ ap \<in> lang False timeRx2"
    unfolding hm ap by (simp add: js_def)
  show "\<forall>c\<in>set hm. \<not> (isWs c \<or> c = 8239)"
    unfolding hm using f(1,3) by (auto simp: numField_def list_all_iff isDigit_def isWs_def)
  show "\<forall>c\<in>set ap. \<not> (isWs c \<or> c = 8239)"
    unfolding ap using f(6) by (auto simp: isWs_def)
qed

lemma parseDateTime_pieces_cong:
  assumes "splitWhere (\<lambda>c. isWs c \<or> c = 8239) t = splitWhere (\<lambda>c. isWs c \<or> c = 8239) t'"
  shows "parseDateTime d t f = parseDateTime d t' f"
  by (simp add: parseDateTime_def assms)

lemma parseDateTime_sep:
  assumes "\<forall>c\<in>set hm. \<not> (isWs c \<or> c = 8239)" "\<forall>c\<in>set ap. \<not> (isWs c \<or> c = 8239)"
    and "sep = 32 \<or> sep = 8239" and "sep' = 32 \<or> sep' = 8239"
  shows "parseDateTime d (hm @ [sep'] @ ap) f = parseDateTime d (hm @ [sep] @ ap) f"
proof -
  have s: "isWs sep \<or> sep = 8239" "isWs sep' \<or> sep' = 8239" using assms(3,4) by (auto simp: isWs_def)
  have "splitWhere (\<lambda>c. isWs c \<or> c = 8239) (hm @ [sep'] @ ap) = [hm, ap]"
    "splitWhere (\<lambda>c. isWs c \<or> c = 8239) (hm @ [sep] @ ap) = [hm, ap]"
    using assms(1,2) s by (simp_all add: splitWhere_sep splitWhere_none)
  then show ?thesis by (intro parseDateTime_pieces_cong) simp
qed

lemma swap_P2:
  assumes "exec MESSAGE_START_PATTERN_2 (d @ js '', '' @ hm @ [sep] @ ap @ js '' - '' @ rest) = Some m"
    and "m 1 = Some d" and "m 2 = Some (hm @ [sep] @ ap)"
    and "sep = 32 \<or> sep = 8239" and "sep' = 32 \<or> sep' = 8239"
  shows "exec MESSAGE_START_PATTERN_2 (d @ js '', '' @ hm @ [sep'] @ ap @ js '' - '' @ rest)
           = Some (m(2 \<mapsto> hm @ [sep'] @ ap))"
proof -
  from assms(1)[unfolded exec_P2_iff] obtain d1 t1 sn b where
    l: "d @ js '', '' @ hm @ [sep] @ ap @ js '' - '' @ rest = d1 @ js '', '' @ t1 @ js '' - '' @ sn @ js '': '' @ b" and
    f: "d1 \<in> lang False dateRx" "t1 \<in> lang False timeRx2" "sn \<in> lang False senderRx" "b \<in> lang False bodyRx" and
    m: "m = [1 \<mapsto> d1, 2 \<mapsto> t1, 3 \<mapsto> sn, 4 \<mapsto> b]" by blast
  have d1: "d1 = d" and t1: "t1 = hm @ [sep] @ ap" using assms(2,3) m by simp_all
  have rest: "rest = sn @ js '': '' @ b" using l unfolding d1 t1 by simp
  from time_token_swap(1)[OF f(2)[unfolded t1] assms(4,5)]
  have t': "hm @ [sep'] @ ap \<in> lang False timeRx2" .
  have "exec MESSAGE_START_PATTERN_2 (d @ js '', '' @ (hm @ [sep'] @ ap) @ js '' - '' @ sn @ js '': '' @ b)
          = Some [1 \<mapsto> d, 2 \<mapsto> hm @ [sep'] @ ap, 3 \<mapsto> sn, 4 \<mapsto> b]"
    unfolding exec_P2_iff using f(1)[unfolded d1] t' f(3,4) by blast
  moreover have "m(2 \<mapsto> hm @ [sep'] @ ap) = [1 \<mapsto> d, 2 \<mapsto> hm @ [sep'] @ ap, 3 \<mapsto> sn, 4 \<mapsto> b]"
    unfolding m d1 by (rule ext) simp
  ultimately show ?thesis unfolding rest by simp
qed

lemma swap_P2SYS:
  assumes "exec MESSAGE_START_PATTERN_2_SYSTEM (d @ js '', '' @ hm @ [sep] @ ap @ js '' - '' @ rest) = Some m"
    and "m 1 = Some d" and "m 2 = Some (hm @ [sep] @ ap)"
    and "sep = 32 \<or> sep = 8239" and "sep' = 32 \<or> sep' = 8239"
  shows "exec MESSAGE_START_PATTERN_2_SYSTEM (d @ js '', '' @ hm @ [sep'] @ ap @ js '' - '' @ rest)
           = Some (m(2 \<mapsto> hm @ [sep'] @ ap))"
proof -
  from assms(1)[unfolded exec_P2SYS_iff] obtain d1 t1 b where
    l: "d @ js '', '' @ hm @ [sep] @ ap @ js '' - '' @ rest = d1 @ js '', '' @ t1 @ js '' - '' @ b" and
    f: "d1 \<in> lang False dateRx" "t1 \<in> lang False timeRx2" "b \<in> lang False restRx" and
    m: "m = [1 \<mapsto> d1, 2 \<mapsto> t1, 3 \<mapsto> b]" by blast
  have d1: "d1 = d" and t1: "t1 = hm @ [sep] @ ap" using assms(2,3) m by simp_all
  have rest: "rest = b" using l unfolding d1 t1 by simp
  from time_token_swap(1)[OF f(2)[unfolded t1] assms(4,5)]
  have t': "hm @ [sep'] @ ap \<in> lang False timeRx2" .
  have "exec MESSAGE_START_PATTERN_2_SYSTEM (d @ js '', '' @ (hm @ [sep'] @ ap) @ js '' - '' @ b)
          = Some [1 \<mapsto> d, 2 \<mapsto> hm @ [sep'] @ ap, 3 \<mapsto> b]"
    unfolding exec_P2SYS_iff using f(1)[unfolded d1] t' f(3) by blast
  moreover have "m(2 \<mapsto> hm @ [sep'] @ ap) = [1 \<mapsto> d, 2 \<mapsto> hm @ [sep'] @ ap, 3 \<mapsto> b]"
    unfolding m d1 by (rule ext) simp
  ultimately show ?thesis unfolding rest by simp
qed

text \<open>
  C5, as the code has it. In the dash dialect the separator between the digits of the
  time and the marker may be a space or U+202F, with the same outcome: if a line whose
  separator is one of the two is a start of format 2 that captured the date \<open>d\<close> and
  the time token around that separator, then the line with the other separator is a
  start of the same kind (system or not) with the same captures but for the separator,
  and the normalizer returns the same for the two time tokens, whatever the format.
\<close>

theorem narrow_space_dash_dialect:
  assumes "sep = 32 \<or> sep = 8239" and "sep' = 32 \<or> sep' = 8239"
    and "tryPatterns (d @ js '', '' @ hm @ [sep] @ ap @ js '' - '' @ rest) = (Some m, isSystem, 2)"
    and "m 1 = Some d" and "m 2 = Some (hm @ [sep] @ ap)"
  shows "tryPatterns (d @ js '', '' @ hm @ [sep'] @ ap @ js '' - '' @ rest)
           = (Some (m(2 \<mapsto> hm @ [sep'] @ ap)), isSystem, 2)
         \<and> parseDateTime d (hm @ [sep'] @ ap) formatType = parseDateTime d (hm @ [sep] @ ap) formatType"
proof -
  let ?old = "d @ js '', '' @ hm @ [sep] @ ap @ js '' - '' @ rest"
  let ?new = "d @ js '', '' @ hm @ [sep'] @ ap @ js '' - '' @ rest"
  from start_tokens[OF assms(3)] assms(4) have dl: "d \<in> lang False dateRx" by auto
  have p1: "exec MESSAGE_START_PATTERN_1 ?new = None" by (rule dash_line_not_P1[OF dl])
  from tryPatterns_cases[OF assms(3)]
  consider (b) "exec MESSAGE_START_PATTERN_2 ?old = Some m" "\<not> isSystem"
    | (c) "exec MESSAGE_START_PATTERN_2 ?old = None" "exec MESSAGE_START_PATTERN_2_SYSTEM ?old = Some m" "isSystem"
    by auto
  then have tl: "hm @ [sep] @ ap \<in> lang False timeRx2"
  proof cases
    case b
    from b(1)[unfolded exec_P2_iff] assms(5) show ?thesis by auto
  next
    case c
    from c(2)[unfolded exec_P2SYS_iff] assms(5) show ?thesis by auto
  qed
  note sw = time_token_swap[OF tl assms(1,2)]
  have pd: "parseDateTime d (hm @ [sep'] @ ap) formatType = parseDateTime d (hm @ [sep] @ ap) formatType"
    by (rule parseDateTime_sep[OF sw(2,3) assms(1,2)])
  from tryPatterns_cases[OF assms(3)]
  consider (b) "exec MESSAGE_START_PATTERN_2 ?old = Some m" "\<not> isSystem"
    | (c) "exec MESSAGE_START_PATTERN_2 ?old = None" "exec MESSAGE_START_PATTERN_2_SYSTEM ?old = Some m" "isSystem"
    by auto
  then have "tryPatterns ?new = (Some (m(2 \<mapsto> hm @ [sep'] @ ap)), isSystem, 2)"
  proof cases
    case b
    from swap_P2[OF b(1) assms(4,5,1,2)] p1 b(2) show ?thesis by (simp add: tryPatterns_def)
  next
    case c
    have p2: "exec MESSAGE_START_PATTERN_2 ?new = None"
    proof (cases "exec MESSAGE_START_PATTERN_2 ?new")
      case None
      then show ?thesis .
    next
      case (Some m2)
      from Some[unfolded exec_P2_iff] obtain d2 t2 sn2 b2 where
        l2: "?new = d2 @ js '', '' @ t2 @ js '' - '' @ sn2 @ js '': '' @ b2" and
        f2: "d2 \<in> lang False dateRx" "t2 \<in> lang False timeRx2" and
        m2: "m2 = [1 \<mapsto> d2, 2 \<mapsto> t2, 3 \<mapsto> sn2, 4 \<mapsto> b2]" by blast
      have eq: "d @ js '', '' @ (hm @ [sep'] @ ap) @ (js '' - '' @ rest)
                  = d2 @ js '', '' @ t2 @ (js '' - '' @ sn2 @ js '': '' @ b2)"
        using l2 by simp
      from prefixB_unique[OF dl f2(1) sw(1) f2(2) eq] have "d2 = d" "t2 = hm @ [sep'] @ ap" by simp_all
      then have "m2 1 = Some d" "m2 2 = Some (hm @ [sep'] @ ap)" using m2 by simp_all
      from swap_P2[OF Some this assms(2,1)] c(1) show ?thesis by simp
    qed
    from swap_P2SYS[OF c(2) assms(4,5,1,2)] p1 p2 c(3) show ?thesis by (simp add: tryPatterns_def)
  qed
  with pd show ?thesis by simp
qed

theorem narrow_space_dash_dialect_witness:
  "tryPatterns (js ''1/13/26'' @ js '', '' @ js ''12:52'' @ [32] @ js ''AM'' @ js '' - '' @ js ''Bob: hi'')
     = (Some [1 \<mapsto> js ''1/13/26'', 2 \<mapsto> js ''12:52'' @ [32] @ js ''AM'', 3 \<mapsto> js ''Bob'', 4 \<mapsto> js ''hi''], False, 2)
   \<and> tryPatterns (js ''1/13/26'' @ js '', '' @ js ''12:52'' @ [8239] @ js ''AM'' @ js '' - '' @ js ''Bob: hi'')
     = (Some ([1 \<mapsto> js ''1/13/26'', 2 \<mapsto> js ''12:52'' @ [32] @ js ''AM'', 3 \<mapsto> js ''Bob'', 4 \<mapsto> js ''hi'']
                (2 \<mapsto> js ''12:52'' @ [8239] @ js ''AM'')), False, 2)
   \<and> parseDateTime (js ''1/13/26'') (js ''12:52'' @ [8239] @ js ''AM'') 2
     = parseDateTime (js ''1/13/26'') (js ''12:52'' @ [32] @ js ''AM'') 2"
proof -
  have t: "tryPatterns (js ''1/13/26'' @ js '', '' @ js ''12:52'' @ [32] @ js ''AM'' @ js '' - '' @ js ''Bob: hi'')
     = (Some [1 \<mapsto> js ''1/13/26'', 2 \<mapsto> js ''12:52'' @ [32] @ js ''AM'', 3 \<mapsto> js ''Bob'', 4 \<mapsto> js ''hi''], False, 2)"
    by (simp add: rx_evals evals)
  have s: "(32::nat) = 32 \<or> (32::nat) = 8239" "(8239::nat) = 32 \<or> (8239::nat) = 8239" by simp_all
  have g: "[1 \<mapsto> js ''1/13/26'', 2 \<mapsto> js ''12:52'' @ [32] @ js ''AM'', 3 \<mapsto> js ''Bob'', 4 \<mapsto> js ''hi''] (1::nat)
             = Some (js ''1/13/26'')"
    "[1 \<mapsto> js ''1/13/26'', 2 \<mapsto> js ''12:52'' @ [32] @ js ''AM'', 3 \<mapsto> js ''Bob'', 4 \<mapsto> js ''hi''] (2::nat)
             = Some (js ''12:52'' @ [32] @ js ''AM'')"
    by simp_all
  from narrow_space_dash_dialect [OF s t g, of 2] t show ?thesis by blast
qed

text \<open>
  The bracket dialect has a plain space in its pattern: a line of that dialect whose
  separator is U+202F is not a start line at all.
\<close>

theorem narrow_space_rejected_in_bracket_dialect:
  "tryPatterns (js ''[13/01/25, 11:52:46'' @ [32] @ js ''AM] Alice: Hello'')
     = (Some [1 \<mapsto> js ''13/01/25'', 2 \<mapsto> js ''11:52:46 AM'', 3 \<mapsto> js ''Alice'', 4 \<mapsto> js ''Hello''], False, 1)
   \<and> tryPatterns (js ''[13/01/25, 11:52:46'' @ [8239] @ js ''AM] Alice: Hello'') = (None, False, 1)"
  by (simp add: rx_evals evals)

section \<open>Precedence of the attachment marker\<close>

lemma search_suffix: "search p s = Some m \<Longrightarrow> \<exists>u t. s = u @ t \<and> matchAt p t = Some m"
proof (induction s)
  case Nil
  then show ?case by simp
next
  case (Cons x xs)
  show ?case
  proof (cases "matchAt p (x # xs)")
    case (Some m')
    with Cons.prems have "matchAt p (x # xs) = Some m" by simp
    then have "x # xs = [] @ (x # xs) \<and> matchAt p (x # xs) = Some m" by simp
    then show ?thesis by blast
  next
    case None
    with Cons.prems have "search p xs = Some m" by simp
    from Cons.IH[OF this] obtain u t where "xs = u @ t" "matchAt p t = Some m" by blast
    then have "x # xs = (x # u) @ t \<and> matchAt p t = Some m" by simp
    then show ?thesis by blast
  qed
qed

lemma attached_match:
  assumes "exec MEDIA_ATTACHED_PATTERN s = Some m"
  shows "\<exists>u w r. s = u @ js ''<attached: '' @ w @ js ''>'' @ r \<and> m = [1 \<mapsto> w]"
proof -
  have b: "body MEDIA_ATTACHED_PATTERN
             = Cat (Lit (js ''<attached: '')) (Cat (Grp 1 (Rep Dot 1 None False)) (Lit (js ''>'')))"
    and i: "ignoreCase MEDIA_ATTACHED_PATTERN = False" and a: "\<not> anchored MEDIA_ATTACHED_PATTERN"
    by (simp_all add: MEDIA_ATTACHED_PATTERN_def)
  have pl: "plain (Rep Dot 1 None False)" by simp
  from assms a have "search MEDIA_ATTACHED_PATTERN s = Some m" by (simp add: exec_def)
  from search_suffix[OF this] obtain u t where s: "s = u @ t" and "matchAt MEDIA_ATTACHED_PATTERN t = Some m"
    by blast
  from matchAt_SomeD[OF this(2)] obtain r where
    "(m, r) \<in> set (rx False (Cat (Lit (js ''<attached: '')) (Cat (Grp 1 (Rep Dot 1 None False)) (Lit (js ''>'')))) Map.empty t)"
    unfolding b i by blast
  then obtain w where "t = js ''<attached: '' @ w @ js ''>'' @ r" "m = [1 \<mapsto> w]"
    unfolding rx_LitCat_iff rx_GrpCat_iff[OF pl] rx_Lit_iff by auto
  with s show ?thesis by blast
qed

text \<open>
  The lazy quantifier of the marker: the file name ends at the first \<^verbatim>\<open>>\<close>, and the
  search finds the leftmost marker.
\<close>

lemma concat_map_first:
  assumes "lo \<le> k" "k < hi" "\<forall>j. lo \<le> j \<and> j < k \<longrightarrow> f j = []" "f k = x # xs"
  shows "\<exists>ys. concat (map f [lo..<hi]) = x # ys"
proof -
  from assms(2) obtain d where hi: "hi = k + d" by (metis less_imp_le_nat le_Suc_ex)
  have "[lo..<hi] = [lo..<k] @ [k..<hi]" unfolding hi using assms(1) by (rule upt_add_eq_append)
  then have sp: "[lo..<hi] = [lo..<k] @ k # [Suc k..<hi]" using assms(2) by (simp add: upt_conv_Cons)
  have c0: "concat (map f [lo..<k]) = []" using assms(3) by simp
  show ?thesis unfolding sp by (simp add: c0 assms(4))
qed

lemma lazy_name_first:
  assumes "w \<noteq> []" "\<forall>c\<in>set w. \<not> isLineTerminator c \<and> c \<noteq> 62"
  shows "\<exists>ys. rx False (Cat (Grp 1 (Rep Dot 1 None False)) (Lit (js ''>''))) caps (w @ js ''>'' @ r)
           = (caps(1 \<mapsto> w), r) # ys"
proof -
  let ?s = "w @ js ''>'' @ r"
  let ?run = "length (takeWhile (inClass False Dot) ?s)"
  let ?f = "\<lambda>k. rx False (Lit (js ''>'')) (caps(1 \<mapsto> take (length ?s - length (drop k ?s)) ?s)) (drop k ?s)"
  have e: "rx False (Cat (Grp 1 (Rep Dot 1 None False)) (Lit (js ''>''))) caps ?s = concat (map ?f [1..<Suc ?run])"
    by (simp add: Let_def comp_def)
  have run: "length w \<le> ?run"
    using assms(2) by (simp add: takeWhile_append2)
  have 1: "1 \<le> length w" using assms(1) by (cases w) simp_all
  have 2: "length w < Suc ?run" using run by simp
  have 3: "\<forall>j. 1 \<le> j \<and> j < length w \<longrightarrow> ?f j = []"
  proof (intro allI impI)
    fix j assume j: "1 \<le> j \<and> j < length w"
    then have "drop j ?s = (w ! j) # drop (Suc j) w @ js ''>'' @ r"
      by (simp add: Cons_nth_drop_Suc)
    moreover have "w ! j \<noteq> 62" using assms(2) j by simp
    ultimately show "?f j = []" by (simp add: js_def)
  qed
  have 4: "?f (length w) = (caps(1 \<mapsto> w), r) # []"
    by (simp add: js_def)
  from concat_map_first[of 1 "length w" "Suc ?run" ?f, OF 1 2 3 4] show ?thesis unfolding e .
qed

lemma attached_first:
  assumes "w \<noteq> []" "\<forall>c\<in>set w. \<not> isLineTerminator c \<and> c \<noteq> 62"
  shows "matchAt MEDIA_ATTACHED_PATTERN (js ''<attached: '' @ w @ js ''>'' @ r) = Some [1 \<mapsto> w]"
proof -
  have b: "body MEDIA_ATTACHED_PATTERN
             = Cat (Lit (js ''<attached: '')) (Cat (Grp 1 (Rep Dot 1 None False)) (Lit (js ''>'')))"
    and i: "ignoreCase MEDIA_ATTACHED_PATTERN = False"
    by (simp_all add: MEDIA_ATTACHED_PATTERN_def)
  from lazy_name_first[OF assms, of Map.empty r] obtain ys where
    "rx False (Cat (Grp 1 (Rep Dot 1 None False)) (Lit (js ''>''))) Map.empty (w @ js ''>'' @ r) = ([1 \<mapsto> w], r) # ys"
    by blast
  then have "rx False (body MEDIA_ATTACHED_PATTERN) Map.empty (js ''<attached: '' @ w @ js ''>'' @ r) = ([1 \<mapsto> w], r) # ys"
    unfolding b by (simp del: rx.simps(3,4,6) add: rx.simps(4)[of _ "Lit _"])
  then show ?thesis by (simp add: matchAt_def i)
qed

lemma last_splitWhere:
  assumes "p x" "\<forall>c\<in>set e. \<not> p c"
  shows "\<exists>pre. pre \<noteq> [] \<and> splitWhere p (u @ x # e) = pre @ [e]"
proof (induction u)
  case Nil
  have "splitWhere p ([] @ x # e) = ([] # []) @ [e]" using assms by (simp add: splitWhere_none)
  moreover have "[] # [] \<noteq> ([] :: jsstring list)" by simp
  ultimately show ?case by blast
next
  case (Cons a u)
  then obtain pre where pre: "pre \<noteq> []" "splitWhere p (u @ x # e) = pre @ [e]" by blast
  then obtain q qs where q: "pre = q # qs" by (cases pre) auto
  show ?case
  proof (cases "p a")
    case True
    then have "splitWhere p ((a # u) @ x # e) = ([] # pre) @ [e]" using pre by simp
    then show ?thesis by blast
  next
    case False
    then have "splitWhere p ((a # u) @ x # e) = ((a # q) # qs) @ [e]" using pre q by simp
    then show ?thesis by blast
  qed
qed

lemma ext_of_name:
  assumes "fname = ext \<or> (\<exists>stem. fname = stem @ js ''.'' @ ext)" and "46 \<notin> set ext"
  shows "last (split 46 fname) = ext"
  using assms(1)
proof
  assume "fname = ext"
  moreover have "\<forall>c\<in>set ext. \<not> c = 46" using assms(2) by auto
  ultimately show ?thesis by (simp add: split_def splitWhere_none)
next
  assume "\<exists>stem. fname = stem @ js ''.'' @ ext"
  then obtain stem where "fname = stem @ 46 # ext" by (auto simp: js_def)
  moreover from last_splitWhere[of "\<lambda>c. c = 46" 46 ext stem] assms(2)
  obtain pre where "splitWhere (\<lambda>c. c = 46) (stem @ 46 # ext) = pre @ [ext]" by auto
  ultimately show ?thesis by (simp add: split_def)
qed

lemma search_found:
  assumes "matchAt p t = Some m"
  shows "\<exists>m'. search p (u @ t) = Some m'"
proof (induction u)
  case Nil
  show ?case using assms by (cases t) simp_all
next
  case (Cons a u)
  then show ?case by (cases "matchAt p (a # u @ t)") simp_all
qed

lemma search_skip:
  assumes "\<And>u1 u2. u = u1 @ u2 \<Longrightarrow> u2 \<noteq> [] \<Longrightarrow> matchAt p (u2 @ t) = None"
    and "matchAt p t = Some m"
  shows "search p (u @ t) = Some m"
  using assms(1)
proof (induction u)
  case Nil
  show ?case using assms(2) by (cases t) simp_all
next
  case (Cons a u)
  have "matchAt p ((a # u) @ t) = None" by (rule Cons.prems[of "[]"]) simp_all
  moreover have "search p (u @ t) = Some m"
  proof (rule Cons.IH)
    fix u1 u2 assume "u = u1 @ u2" "u2 \<noteq> []"
    then show "matchAt p (u2 @ t) = None" using Cons.prems[of "a # u1" u2] by simp
  qed
  ultimately show ?case by simp
qed

lemma marker_no_overlap:
  assumes "u2 \<noteq> []" "u2 @ js ''<attached: '' @ x = js ''<attached: '' @ y"
  shows "\<exists>z. u2 = js ''<attached: '' @ z"
proof -
  let ?lit = "js ''<attached: ''"
  from assms(2) obtain us where
    c: "(u2 = ?lit @ us \<and> us @ ?lit @ x = y) \<or> (u2 @ us = ?lit \<and> ?lit @ x = us @ y)"
    unfolding append_eq_append_conv2 by blast
  then show ?thesis
  proof
    assume "u2 = ?lit @ us \<and> us @ ?lit @ x = y"
    then show ?thesis by blast
  next
    assume a: "u2 @ us = ?lit \<and> ?lit @ x = us @ y"
    show ?thesis
    proof (cases us)
      case Nil
      with a have "u2 = ?lit @ []" by simp
      then show ?thesis by blast
    next
      case (Cons h hs)
      with a have "h = 60" by (simp add: js_def)
      moreover obtain b u2' where "u2 = b # u2'" using assms(1) by (cases u2) auto
      with a Cons have "tl ?lit = u2' @ h # hs" by (metis append_Cons list.sel(3))
      then have "h \<in> set (tl ?lit)" by simp
      ultimately show ?thesis by (simp add: js_def)
    qed
  qed
qed

lemma attached_needs_marker:
  assumes "matchAt MEDIA_ATTACHED_PATTERN s = Some m"
  shows "\<exists>y. s = js ''<attached: '' @ y"
proof -
  have b: "body MEDIA_ATTACHED_PATTERN
             = Cat (Lit (js ''<attached: '')) (Cat (Grp 1 (Rep Dot 1 None False)) (Lit (js ''>'')))"
    and i: "ignoreCase MEDIA_ATTACHED_PATTERN = False"
    by (simp_all add: MEDIA_ATTACHED_PATTERN_def)
  from matchAt_SomeD[OF assms] obtain r where
    "(m, r) \<in> set (rx False (Cat (Lit (js ''<attached: '')) (Cat (Grp 1 (Rep Dot 1 None False)) (Lit (js ''>'')))) Map.empty s)"
    unfolding b i by blast
  then show ?thesis unfolding rx_LitCat_iff by blast
qed

lemma attached_some:
  assumes "w \<noteq> []" "\<forall>c\<in>set w. \<not> isLineTerminator c"
  shows "\<exists>m. matchAt MEDIA_ATTACHED_PATTERN (js ''<attached: '' @ w @ js ''>'' @ r) = Some m"
proof -
  have b: "body MEDIA_ATTACHED_PATTERN
             = Cat (Lit (js ''<attached: '')) (Cat (Grp 1 (Rep Dot 1 None False)) (Lit (js ''>'')))"
    and i: "ignoreCase MEDIA_ATTACHED_PATTERN = False"
    by (simp_all add: MEDIA_ATTACHED_PATTERN_def)
  have pl: "plain (Rep Dot 1 None False)" by simp
  have w: "w \<in> lang False (Rep Dot 1 None False)" using assms by (cases w) auto
  have "([1 \<mapsto> w], r) \<in> set (rx False (Cat (Lit (js ''<attached: '')) (Cat (Grp 1 (Rep Dot 1 None False)) (Lit (js ''>'')))) Map.empty
          (js ''<attached: '' @ w @ js ''>'' @ r))"
    unfolding rx_LitCat_iff rx_GrpCat_iff[OF pl] rx_Lit_iff using w by auto
  then have "([1 \<mapsto> w], r) \<in> set (rx (ignoreCase MEDIA_ATTACHED_PATTERN) (body MEDIA_ATTACHED_PATTERN) Map.empty
          (js ''<attached: '' @ w @ js ''>'' @ r))" unfolding b i .
  then have "rx (ignoreCase MEDIA_ATTACHED_PATTERN) (body MEDIA_ATTACHED_PATTERN) Map.empty
          (js ''<attached: '' @ w @ js ''>'' @ r) \<noteq> []" by (metis empty_iff empty_set)
  then show ?thesis using matchAt_None_iff[of MEDIA_ATTACHED_PATTERN] by (metis not_Some_eq)
qed

lemma attached_leftmost:
  assumes "\<not> includesJs u (js ''<attached: '')" and "w \<noteq> []"
    and "\<forall>c\<in>set w. \<not> isLineTerminator c \<and> c \<noteq> 62"
  shows "exec MEDIA_ATTACHED_PATTERN (u @ js ''<attached: '' @ w @ js ''>'' @ r) = Some [1 \<mapsto> w]"
proof -
  let ?t = "js ''<attached: '' @ w @ js ''>'' @ r"
  have a: "\<not> anchored MEDIA_ATTACHED_PATTERN" by (simp add: MEDIA_ATTACHED_PATTERN_def)
  have "search MEDIA_ATTACHED_PATTERN (u @ ?t) = Some [1 \<mapsto> w]"
  proof (rule search_skip)
    show "matchAt MEDIA_ATTACHED_PATTERN ?t = Some [1 \<mapsto> w]" using assms(2,3) by (rule attached_first)
  next
    fix u1 u2 assume u: "u = u1 @ u2" "u2 \<noteq> []"
    show "matchAt MEDIA_ATTACHED_PATTERN (u2 @ ?t) = None"
    proof (cases "matchAt MEDIA_ATTACHED_PATTERN (u2 @ ?t)")
      case None
      then show ?thesis .
    next
      case (Some m)
      from attached_needs_marker[OF Some] obtain y where "u2 @ ?t = js ''<attached: '' @ y" by blast
      from marker_no_overlap[OF u(2) this] obtain z where "u2 = js ''<attached: '' @ z" by blast
      then have "u = u1 @ js ''<attached: '' @ z" using u(1) by simp
      then have "includesJs u (js ''<attached: '')" unfolding includesJs_iff by blast
      with assms(1) show ?thesis by simp
    qed
  qed
  then show ?thesis using a by (simp add: exec_def)
qed

text \<open>
  C4. Take a body that contains a marker \<^verbatim>\<open><attached: w>\<close>, where \<open>w\<close> is not empty
  and has no line terminator, whatever stands before and after it (an omission phrase,
  a system phrase). The analysis is of type media; its file name is the text that a
  marker holds in the body, and it is \<open>w\<close> itself when no marker opens before this
  one and \<open>w\<close> has no \<^verbatim>\<open>>\<close>. The kind of media comes from the extension, the text
  of the file name after its last dot (the whole name when it has no dot), lower-cased:
  jpg, jpeg, png, gif and webp are images, mp4, avi, mov and mkv are videos, opus, mp3,
  ogg, aac and m4a are audio, and anything else is a document.
\<close>

theorem attachment_marker_precedence:
  assumes "messageBody = u @ js ''<attached: '' @ w @ js ''>'' @ r"
    and "w \<noteq> []" and "\<forall>c\<in>set w. \<not> isLineTerminator c"
  shows "\<exists>fname kind.
           analyzeMessage messageBody = Inr \<lparr>type = Media, media = Some \<lparr>filename = fname, mediaType = kind\<rparr>\<rparr>
           \<and> includesJs messageBody (js ''<attached: '' @ fname @ js ''>'')
           \<and> (\<forall>ext. (fname = ext \<or> (\<exists>stem. fname = stem @ js ''.'' @ ext)) \<and> 46 \<notin> set ext \<longrightarrow>
                 kind = (if toLowerCase ext \<in> set (map js [''jpg'', ''jpeg'', ''png'', ''gif'', ''webp'']) then Image
                         else if toLowerCase ext \<in> set (map js [''mp4'', ''avi'', ''mov'', ''mkv'']) then Video
                         else if toLowerCase ext \<in> set (map js [''opus'', ''mp3'', ''ogg'', ''aac'', ''m4a'']) then Audio
                         else Document))
           \<and> (\<not> includesJs u (js ''<attached: '') \<and> 62 \<notin> set w \<longrightarrow> fname = w)"
proof -
  let ?t = "js ''<attached: '' @ w @ js ''>'' @ r"
  have a: "\<not> anchored MEDIA_ATTACHED_PATTERN" by (simp add: MEDIA_ATTACHED_PATTERN_def)
  from attached_some[OF assms(2,3), of r] obtain m0 where "matchAt MEDIA_ATTACHED_PATTERN ?t = Some m0" by blast
  from search_found[OF this, of u] obtain m where "search MEDIA_ATTACHED_PATTERN (u @ ?t) = Some m" by blast
  then have e: "exec MEDIA_ATTACHED_PATTERN messageBody = Some m" using a assms(1) by (simp add: exec_def)
  from attached_match[OF e] obtain u' fname r' where
    s: "messageBody = u' @ js ''<attached: '' @ fname @ js ''>'' @ r'" and m: "m = [1 \<mapsto> fname]" by blast
  let ?kind = "mediaTypeOf (toLowerCase (last (split 46 fname)))"
  have 1: "analyzeMessage messageBody = Inr \<lparr>type = Media, media = Some \<lparr>filename = fname, mediaType = ?kind\<rparr>\<rparr>"
    using e m by (simp add: analyzeMessage_def Let_def)
  have "messageBody = u' @ (js ''<attached: '' @ fname @ js ''>'') @ r'" using s by simp
  then have 2: "includesJs messageBody (js ''<attached: '' @ fname @ js ''>'')" unfolding includesJs_iff by blast
  have 3: "?kind = (if toLowerCase ext \<in> set (map js [''jpg'', ''jpeg'', ''png'', ''gif'', ''webp'']) then Image
                         else if toLowerCase ext \<in> set (map js [''mp4'', ''avi'', ''mov'', ''mkv'']) then Video
                         else if toLowerCase ext \<in> set (map js [''opus'', ''mp3'', ''ogg'', ''aac'', ''m4a'']) then Audio
                         else Document)"
    if "(fname = ext \<or> (\<exists>stem. fname = stem @ js ''.'' @ ext)) \<and> 46 \<notin> set ext" for ext
  proof -
    from that have l: "last (split 46 fname) = ext" by (intro ext_of_name) simp_all
    show ?thesis unfolding l mediaTypeOf_def by (simp only: if_cancel)
  qed
  have 4: "fname = w" if "\<not> includesJs u (js ''<attached: '') \<and> 62 \<notin> set w"
  proof -
    from that assms(3) have "\<forall>c\<in>set w. \<not> isLineTerminator c \<and> c \<noteq> 62" by auto
    from attached_leftmost[OF _ assms(2) this, of u r] that e
    have "m = [1 \<mapsto> w]" unfolding assms(1) by simp
    with m show ?thesis by (metis fun_upd_same option.inject)
  qed
  from 1 2 3 4 show ?thesis by blast
qed

lemmas media_evals = analyzeMessage_def MEDIA_ATTACHED_PATTERN_def MEDIA_ATTACHED_PATTERN_2_def
  MEDIA_OMITTED_PATTERN_def mediaTypeOf_def isSystemMessage_def SYSTEM_MESSAGE_INDICATORS_def

text \<open>The table on other extensions, and the omission phrase alone.\<close>

lemma media_kind_examples:
  "analyzeMessage (js ''<attached: clip.MP4>'')
     = Inr \<lparr>type = Media, media = Some \<lparr>filename = js ''clip.MP4'', mediaType = Video\<rparr>\<rparr>"
  "analyzeMessage (js ''see <attached: voice.note.opus> video omitted'')
     = Inr \<lparr>type = Media, media = Some \<lparr>filename = js ''voice.note.opus'', mediaType = Audio\<rparr>\<rparr>"
  "analyzeMessage (js ''<attached: report.pdf>'')
     = Inr \<lparr>type = Media, media = Some \<lparr>filename = js ''report.pdf'', mediaType = Document\<rparr>\<rparr>"
  "analyzeMessage (js ''<attached: archive.zip>'')
     = Inr \<lparr>type = Media, media = Some \<lparr>filename = js ''archive.zip'', mediaType = Document\<rparr>\<rparr>"
  "analyzeMessage (js ''image omitted'') = Inr \<lparr>type = MediaOmitted, media = None\<rparr>"
  by (simp_all add: media_evals rx_evals evals)

theorem attachment_marker_precedence_witness:
  "exec MEDIA_OMITTED_PATTERN (js ''<attached: photo.jpg> image omitted'') \<noteq> None
   \<and> analyzeMessage (js ''<attached: photo.jpg> image omitted'')
       = Inr \<lparr>type = Media, media = Some \<lparr>filename = js ''photo.jpg'', mediaType = Image\<rparr>\<rparr>"
proof -
  have o: "exec MEDIA_OMITTED_PATTERN (js ''<attached: photo.jpg> image omitted'') \<noteq> None"
    by (simp add: media_evals rx_evals evals)
  have b: "js ''<attached: photo.jpg> image omitted'' = [] @ js ''<attached: '' @ js ''photo.jpg'' @ js ''>'' @ js '' image omitted''"
    by (simp add: js_def)
  have n: "js ''photo.jpg'' \<noteq> []" "\<forall>c\<in>set (js ''photo.jpg''). \<not> isLineTerminator c"
    by (simp_all add: js_def isLineTerminator_def)
  from attachment_marker_precedence [OF b n] obtain fname kind where
    1: "analyzeMessage (js ''<attached: photo.jpg> image omitted'')
          = Inr \<lparr>type = Media, media = Some \<lparr>filename = fname, mediaType = kind\<rparr>\<rparr>"
    and 3: "\<forall>ext. (fname = ext \<or> (\<exists>stem. fname = stem @ js ''.'' @ ext)) \<and> 46 \<notin> set ext \<longrightarrow>
                 kind = (if toLowerCase ext \<in> set (map js [''jpg'', ''jpeg'', ''png'', ''gif'', ''webp'']) then Image
                         else if toLowerCase ext \<in> set (map js [''mp4'', ''avi'', ''mov'', ''mkv'']) then Video
                         else if toLowerCase ext \<in> set (map js [''opus'', ''mp3'', ''ogg'', ''aac'', ''m4a'']) then Audio
                         else Document)"
    and 4: "\<not> includesJs [] (js ''<attached: '') \<and> 62 \<notin> set (js ''photo.jpg'') \<longrightarrow> fname = js ''photo.jpg''"
    by blast
  have f: "fname = js ''photo.jpg''" using 4 by (simp add: js_def)
  have "fname = js ''photo'' @ js ''.'' @ js ''jpg''" unfolding f by (simp add: js_def)
  then have "(fname = js ''jpg'' \<or> (\<exists>stem. fname = stem @ js ''.'' @ js ''jpg'')) \<and> 46 \<notin> set (js ''jpg'')"
    by (auto simp: js_def)
  with 3 have "kind = (if toLowerCase (js ''jpg'') \<in> set (map js [''jpg'', ''jpeg'', ''png'', ''gif'', ''webp'']) then Image
                         else if toLowerCase (js ''jpg'') \<in> set (map js [''mp4'', ''avi'', ''mov'', ''mkv'']) then Video
                         else if toLowerCase (js ''jpg'') \<in> set (map js [''opus'', ''mp3'', ''ogg'', ''aac'', ''m4a'']) then Audio
                         else Document)" by blast
  then have "kind = Image" by (simp add: evals)
  with 1 f o show ?thesis by simp
qed

section \<open>The date span of the metadata\<close>

text \<open>The calendar and the parsing of a timestamp, evaluated where the example needs them.\<close>

lemma civil_examples:
  "civilFromDays 0 = (1970, 1, 1)" "civilFromDays 20256 = (2025, 6, 17)" "civilFromDays 20257 = (2025, 6, 18)"
  by code_simp+

lemma isoDay_examples:
  "isoDay 0 = js ''1970-01-01''" "isoDay 1750192200000 = js ''2025-06-17''"
  "isoDay 1750212000000 = js ''2025-06-18''"
  by (simp_all add: isoDay_def civil_examples padZeros_def showNat.simps js_def)

lemma dateParse_examples:
  "dateParse 330 (js ''2025-06-18T02:00:00'') = Some 1750192200000"
  "dateParse 0 (js ''2025-06-18T02:00:00'') = Some 1750212000000"
  by (simp_all add: dateParse_def daysFromCivil_def daysInMonth_def evals)

text \<open>
  C8, at one input. The transcript has one message, written at two in the morning of
  18 June 2025. On a host five and a half hours ahead of UTC the extractor reports the
  17th as both ends of the span, since \<^verbatim>\<open>toISOString\<close> prints the UTC day of the
  local time; the calendar date of the timestamp is the 18th, which is what a host on
  UTC reports.
\<close>

theorem date_span_follows_utc:
  "parseChatFile (js ''[18/06/25, 02:00:00 AM] Alice: Hello'') = Inr [\<lparr>type = Text, media = None, msgId = js ''msg_1'', timestamp = js ''2025-06-18T02:00:00'',
        sender = js ''Alice'', content = js ''Hello''\<rparr>]
   \<and> extractMetadata \<lparr>tzOffset = 330, now = 0\<rparr> [\<lparr>type = Text, media = None, msgId = js ''msg_1'', timestamp = js ''2025-06-18T02:00:00'',
        sender = js ''Alice'', content = js ''Hello''\<rparr>] (js ''chat'')
       = Inr \<lparr>chatName = js ''chat'', exportDate = js ''1970-01-01'', messageCount = 1,
              participants = [js ''Alice''],
              dateRange = \<lparr>startDate = Some (js ''2025-06-17''), endDate = Some (js ''2025-06-17'')\<rparr>\<rparr>
   \<and> extractMetadata \<lparr>tzOffset = 0, now = 0\<rparr> [\<lparr>type = Text, media = None, msgId = js ''msg_1'', timestamp = js ''2025-06-18T02:00:00'',
        sender = js ''Alice'', content = js ''Hello''\<rparr>] (js ''chat'')
       = Inr \<lparr>chatName = js ''chat'', exportDate = js ''1970-01-01'', messageCount = 1,
              participants = [js ''Alice''],
              dateRange = \<lparr>startDate = Some (js ''2025-06-18''), endDate = Some (js ''2025-06-18'')\<rparr>\<rparr>"
proof -
  have p: "parseChatFile (js ''[18/06/25, 02:00:00 AM] Alice: Hello'') = Inr [\<lparr>type = Text, media = None, msgId = js ''msg_1'', timestamp = js ''2025-06-18T02:00:00'',
        sender = js ''Alice'', content = js ''Hello''\<rparr>]"
    by (simp add: parseChatFile_def parseLines_def step_def newMessage_def flush_def media_evals rx_evals evals)
  have a: "extractMetadata \<lparr>tzOffset = 330, now = 0\<rparr> [\<lparr>type = Text, media = None, msgId = js ''msg_1'', timestamp = js ''2025-06-18T02:00:00'',
        sender = js ''Alice'', content = js ''Hello''\<rparr>] (js ''chat'')
       = Inr \<lparr>chatName = js ''chat'', exportDate = js ''1970-01-01'', messageCount = 1,
              participants = [js ''Alice''],
              dateRange = \<lparr>startDate = Some (js ''2025-06-17''), endDate = Some (js ''2025-06-17'')\<rparr>\<rparr>"
    by (simp add: extractMetadata_def setAdd_def dateParse_examples isoDay_examples)
  have b: "extractMetadata \<lparr>tzOffset = 0, now = 0\<rparr> [\<lparr>type = Text, media = None, msgId = js ''msg_1'', timestamp = js ''2025-06-18T02:00:00'',
        sender = js ''Alice'', content = js ''Hello''\<rparr>] (js ''chat'')
       = Inr \<lparr>chatName = js ''chat'', exportDate = js ''1970-01-01'', messageCount = 1,
              participants = [js ''Alice''],
              dateRange = \<lparr>startDate = Some (js ''2025-06-18''), endDate = Some (js ''2025-06-18'')\<rparr>\<rparr>"
    by (simp add: extractMetadata_def setAdd_def dateParse_examples isoDay_examples)
  from p a b show ?thesis by blast
qed

end
